theory Spec2Isabelle
  imports Main "HOL-Library.Word" "HOL-Library.Multiset"
begin

section \<open>Stake manager of the polybft consensus: data model\<close>

text \<open>
  The embedding follows \<^verbatim>\<open>stake_manager.go\<close> (package polybft). Pointers to
  \<^verbatim>\<open>ValidatorMetadata\<close> are values here: \<^verbatim>\<open>newValidatorStakeMap\<close> copies every
  entry it stores, so a stake map never aliases the account set it was built from.
  A \<^verbatim>\<open>*big.Int\<close> is an \<open>int\<close>; a \<^verbatim>\<open>types.Address\<close> (\<^verbatim>\<open>[20]byte\<close>) is a list of bytes.
\<close>

type_synonym byte = "8 word"
type_synonym Address = "byte list"

text \<open>The BLS public key is opaque to the stake manager; only its presence matters.\<close>

datatype PublicKey = PublicKey "int list"

record ValidatorMetadata =
  Address :: Address
  VotingPower :: int
  BlsKey :: "PublicKey option"
  IsActive :: bool

type_synonym AccountSet = "ValidatorMetadata list"

text \<open>
  Errors are values. \<open>Error\<close> is an error returned by a collaborator, \<open>Errorf\<close> is
  \<^verbatim>\<open>fmt.Errorf\<close> wrapping a cause with \<^verbatim>\<open>%w\<close>, and \<open>Panic\<close> is a Go run-time panic
  (nil dereference, slice bounds), which no caller in this file recovers from.
\<close>

datatype error = Error string | Errorf string error | Panic string

fun isPanic :: "error \<Rightarrow> bool" where
  "isPanic (Panic _) = True"
| "isPanic _ = False"

text \<open>
  Modelled from the spec: the \<^verbatim>\<open>bitmap\<close> package is not among the sources. The spec
  describes \<open>Removed\<close> as a bit-set keyed by position in the previous committee; a
  bitmap is the set of positions whose bit is set.
\<close>

type_synonym Bitmap = "nat set"

definition Bitmap_Set :: "Bitmap \<Rightarrow> nat \<Rightarrow> Bitmap" where
  "Bitmap_Set b idx = insert idx b"

definition Bitmap_IsSet :: "Bitmap \<Rightarrow> nat \<Rightarrow> bool" where
  "Bitmap_IsSet b idx = (idx \<in> b)"

record ValidatorSetDelta =
  Added :: AccountSet
  Updated :: AccountSet
  Removed :: Bitmap

type_synonym validatorStakeMap = "Address \<rightharpoonup> ValidatorMetadata"

subsection \<open>Arithmetic and byte comparison of the Go library\<close>

definition bigZero :: int where
  "bigZero = 0"

text \<open>\<^verbatim>\<open>(*big.Int).Cmp\<close>: -1, 0 or +1.\<close>

definition Cmp :: "int \<Rightarrow> int \<Rightarrow> int" where
  "Cmp x y = (if x < y then - 1 else if x = y then 0 else 1)"

text \<open>
  \<^verbatim>\<open>bytes.Compare\<close>: lexicographic comparison of two byte slices, bytes read as
  unsigned; a proper prefix is smaller.
\<close>

fun bytes_Compare :: "byte list \<Rightarrow> byte list \<Rightarrow> int" where
  "bytes_Compare [] [] = 0"
| "bytes_Compare [] (y # ys) = - 1"
| "bytes_Compare (x # xs) [] = 1"
| "bytes_Compare (x # xs) (y # ys) =
     (if x < y then - 1 else if y < x then 1 else bytes_Compare xs ys)"

text \<open>
  \<^verbatim>\<open>sort.Slice\<close> with a comparison \<open>lessFn\<close>. The Go library promises a sorted
  permutation and no stability; insertion sort is one such algorithm. Lemma
  \<open>strict_sorted_unique\<close> below shows that on the lists sorted here (pairwise distinct
  addresses, a strict total order) every sorting algorithm returns the same list.
\<close>

fun insort_by :: "('a \<Rightarrow> 'a \<Rightarrow> bool) \<Rightarrow> 'a \<Rightarrow> 'a list \<Rightarrow> 'a list" where
  "insort_by lessFn x [] = [x]"
| "insort_by lessFn x (y # ys) =
     (if lessFn y x then y # insort_by lessFn x ys else x # y # ys)"

definition sort_Slice :: "('a \<Rightarrow> 'a \<Rightarrow> bool) \<Rightarrow> 'a list \<Rightarrow> 'a list" where
  "sort_Slice lessFn xs = foldr (insort_by lessFn) xs []"

section \<open>The stake map\<close>

text \<open>
  \<^verbatim>\<open>newValidatorStakeMap\<close>: a later entry of the account set with the same address
  overwrites an earlier one.
\<close>

definition newValidatorStakeMap :: "AccountSet \<Rightarrow> validatorStakeMap" where
  "newValidatorStakeMap validatorSet =
     fold (\<lambda>v stakeMap. stakeMap(Address v \<mapsto> v)) validatorSet Map.empty"

definition addStake :: "validatorStakeMap \<Rightarrow> Address \<Rightarrow> int \<Rightarrow> validatorStakeMap" where
  "addStake sc address amount =
     (case sc address of
        Some metadata \<Rightarrow>
          sc(address \<mapsto> metadata\<lparr>VotingPower := VotingPower metadata + amount,
                IsActive := Cmp (VotingPower metadata + amount) bigZero > 0\<rparr>)
      | None \<Rightarrow>
          sc(address \<mapsto> \<lparr>Address = address, VotingPower = amount, BlsKey = None,
                IsActive = True\<rparr>))"

text \<open>
  \<^verbatim>\<open>removeStake\<close> reads \<^verbatim>\<open>(*sc)[address]\<close> without the \<^verbatim>\<open>exists\<close> check; for an
  absent address the entry is nil and \<^verbatim>\<open>stakeData.VotingPower\<close> panics.
\<close>

definition removeStake :: "validatorStakeMap \<Rightarrow> Address \<Rightarrow> int \<Rightarrow> error + validatorStakeMap" where
  "removeStake sc address amount =
     (case sc address of
        None \<Rightarrow> Inl (Panic ''invalid memory address or nil pointer dereference'')
      | Some stakeData \<Rightarrow>
          Inr (sc(address \<mapsto> stakeData\<lparr>VotingPower := VotingPower stakeData - amount,
                IsActive := Cmp (VotingPower stakeData - amount) bigZero > 0\<rparr>)))"

text \<open>
  A Go map is ranged over in an order the run time chooses. The order is a parameter:
  a list of the keys, and \<open>iteration_order\<close> says that it lists every key once.
\<close>

definition iteration_order :: "validatorStakeMap \<Rightarrow> Address list \<Rightarrow> bool" where
  "iteration_order sc order = (distinct order \<and> set order = dom sc)"

definition range_entries :: "validatorStakeMap \<Rightarrow> Address list \<Rightarrow> (Address \<times> ValidatorMetadata) list" where
  "range_entries sc order = List.map_filter (\<lambda>addr. map_option (Pair addr) (sc addr)) order"

definition range_values :: "validatorStakeMap \<Rightarrow> Address list \<Rightarrow> ValidatorMetadata list" where
  "range_values sc order = map snd (range_entries sc order)"

text \<open>The comparison handed to \<^verbatim>\<open>sort.Slice\<close> in \<^verbatim>\<open>getActiveValidators\<close>.\<close>

definition less_validator :: "ValidatorMetadata \<Rightarrow> ValidatorMetadata \<Rightarrow> bool" where
  "less_validator v1 v2 =
     (let c = Cmp (VotingPower v1) (VotingPower v2) in
      if c = 1 then True
      else if c = 0 then bytes_Compare (Address v1) (Address v2) < 0
      else False)"

text \<open>
  \<^verbatim>\<open>getActiveValidators\<close>. \<^verbatim>\<open>maxValidatorSetSize\<close> is a Go \<^verbatim>\<open>int\<close>; for a negative
  value the test \<^verbatim>\<open>len(activeValidators) <= maxValidatorSetSize\<close> fails and the slice
  expression \<^verbatim>\<open>activeValidators[:maxValidatorSetSize]\<close> panics.
\<close>

definition getActiveValidators ::
  "validatorStakeMap \<Rightarrow> Address list \<Rightarrow> int \<Rightarrow> error + ValidatorMetadata list" where
  "getActiveValidators sc order maxValidatorSetSize =
     (let activeValidators =
            sort_Slice less_validator
              (filter (\<lambda>v. Cmp (VotingPower v) bigZero > 0) (range_values sc order))
      in if int (length activeValidators) \<le> maxValidatorSetSize then Inr activeValidators
         else if maxValidatorSetSize < 0 then Inl (Panic ''slice bounds out of range'')
         else Inr (take (nat maxValidatorSetSize) activeValidators))"

section \<open>The stake manager\<close>

record stakeManager =
  validatorSetContract :: Address
  supernetManagerContract :: Address
  maxValidatorSetSize :: int
  logger_IsDebug :: bool

datatype ReceiptStatus = ReceiptFailed | ReceiptSuccess

record Log =
  Log_Address :: Address
  Topics :: "byte list list"
  Data :: "byte list"

record Receipt =
  Status :: "ReceiptStatus option"
  Logs :: "Log list"

record TransferEvent =
  From :: Address
  To :: Address
  Value :: int

definition ZeroAddress :: Address where
  "ZeroAddress = replicate 20 0"

text \<open>
  Modelled from the spec: \<^verbatim>\<open>TransferEvent.IsStake\<close> and \<^verbatim>\<open>IsUnstake\<close> (package
  contractsapi) are not among the sources. The spec: a stake event mints into a
  validator (\<open>From\<close> is the zero address), an unstake event burns from a validator
  (\<open>To\<close> is the zero address).
\<close>

definition IsStake :: "TransferEvent \<Rightarrow> bool" where
  "IsStake event = (From event = ZeroAddress)"

definition IsUnstake :: "TransferEvent \<Rightarrow> bool" where
  "IsUnstake event = (To event = ZeroAddress)"

text \<open>
  The collaborators of the stake manager, none of them among the sources, are
  parameters:
  \<^item> the store \<^verbatim>\<open>state.StakeStore\<close>, with a state of type \<open>'s\<close>;
  \<^item> \<open>queryBlsKey\<close>: what the chain of calls in \<^verbatim>\<open>getNewValidatorInfo\<close> (ABI encoding,
    \<^verbatim>\<open>rootChainRelayer.Call\<close>, hex and ABI decoding, \<^verbatim>\<open>bls.UnmarshalPublicKeyFromBigInt\<close>)
    yields for an address: the error of the first step that fails, or the key;
  \<^item> \<open>ApplyDelta\<close>: \<^verbatim>\<open>AccountSet.ApplyDelta\<close>, called when the logger is in debug mode;
  \<^item> \<open>ParseLog\<close>: \<^verbatim>\<open>TransferEvent.ParseLog\<close> on the converted log: the event it
    filled in, whether the log matches, and its error.
\<close>

record 's collaborators =
  getFullValidatorSet :: "'s \<Rightarrow> error + AccountSet"
  insertFullValidatorSet :: "AccountSet \<Rightarrow> 's \<Rightarrow> error + 's"
  queryBlsKey :: "Address \<Rightarrow> error + PublicKey"
  ApplyDelta :: "AccountSet \<Rightarrow> ValidatorSetDelta \<Rightarrow> error + AccountSet"
  ParseLog :: "Log \<Rightarrow> TransferEvent \<times> bool \<times> error option"

record ValidatorSet =
  Accounts :: AccountSet

record PostEpochRequest =
  NewEpochID :: "64 word"
  ValidatorSet :: ValidatorSet

record PostBlockRequest =
  Receipts :: "Receipt list"
  Epoch :: "64 word"

text \<open>
  \<^verbatim>\<open>PostEpoch\<close>. The result is \<open>Inl\<close> the error returned, or \<open>Inr\<close> the state of the
  store after a return of nil.
\<close>

definition PostEpoch :: "'s collaborators \<Rightarrow> PostEpochRequest \<Rightarrow> 's \<Rightarrow> error + 's" where
  "PostEpoch env req st =
     (if NewEpochID req \<noteq> 1 then Inr st
      else insertFullValidatorSet env (Accounts (ValidatorSet req)) st)"

text \<open>\<^verbatim>\<open>getNewValidatorInfo\<close>.\<close>

definition getNewValidatorInfo ::
  "'s collaborators \<Rightarrow> Address \<Rightarrow> int \<Rightarrow> error + ValidatorMetadata" where
  "getNewValidatorInfo env address stake =
     (case queryBlsKey env address of
        Inl err \<Rightarrow> Inl err
      | Inr pubKey \<Rightarrow>
          Inr \<lparr>Address = address, VotingPower = stake, BlsKey = Some pubKey,
               IsActive = True\<rparr>)"


subsection \<open>Per-block ingestion\<close>

text \<open>
  \<^verbatim>\<open>getTransferEventsFromReceipts\<close>: the inner loop over the logs of one receipt and
  the outer loop over the receipts; \<open>events\<close> is the slice built so far.
  \<^verbatim>\<open>convertLog\<close> changes the representation of the log only.
\<close>

fun parseLogs ::
  "Address \<Rightarrow> (Log \<Rightarrow> TransferEvent \<times> bool \<times> error option) \<Rightarrow> Log list \<Rightarrow>
   TransferEvent list \<Rightarrow> error + TransferEvent list" where
  "parseLogs contract parse [] events = Inr events"
| "parseLogs contract parse (log # logs) events =
     (if Log_Address log \<noteq> contract then parseLogs contract parse logs events
      else
        (case parse log of
           (transferEvent, doesMatch, Some err) \<Rightarrow> Inl err
         | (transferEvent, doesMatch, None) \<Rightarrow>
             if \<not> doesMatch then parseLogs contract parse logs events
             else parseLogs contract parse logs (events @ [transferEvent])))"

fun receiptsLoop ::
  "Address \<Rightarrow> (Log \<Rightarrow> TransferEvent \<times> bool \<times> error option) \<Rightarrow> Receipt list \<Rightarrow>
   TransferEvent list \<Rightarrow> error + TransferEvent list" where
  "receiptsLoop contract parse [] events = Inr events"
| "receiptsLoop contract parse (receipt # receipts) events =
     (if Status receipt = None \<or> Status receipt \<noteq> Some ReceiptSuccess
      then receiptsLoop contract parse receipts events
      else
        (case parseLogs contract parse (Logs receipt) events of
           Inl err \<Rightarrow> Inl err
         | Inr events' \<Rightarrow> receiptsLoop contract parse receipts events'))"

definition getTransferEventsFromReceipts ::
  "stakeManager \<Rightarrow> 's collaborators \<Rightarrow> Receipt list \<Rightarrow> error + TransferEvent list" where
  "getTransferEventsFromReceipts s env receipts =
     receiptsLoop (validatorSetContract s) (ParseLog env) receipts []"

text \<open>The loop of \<^verbatim>\<open>PostBlock\<close> that applies the events to the stake map.\<close>

fun applyEvents :: "TransferEvent list \<Rightarrow> validatorStakeMap \<Rightarrow> error + validatorStakeMap" where
  "applyEvents [] stakeMap = Inr stakeMap"
| "applyEvents (event # events) stakeMap =
     (if IsStake event then applyEvents events (addStake stakeMap (To event) (Value event))
      else if IsUnstake event then
        (case removeStake stakeMap (From event) (Value event) of
           Inl err \<Rightarrow> Inl err
         | Inr stakeMap' \<Rightarrow> applyEvents events stakeMap')
      else applyEvents events stakeMap)"

text \<open>
  The body of the loop of \<^verbatim>\<open>PostBlock\<close> over the stake map: an entry without a BLS
  key is looked up; a failed lookup is logged and the entry kept.
\<close>

definition resolveEntry :: "'s collaborators \<Rightarrow> Address \<times> ValidatorMetadata \<Rightarrow> ValidatorMetadata" where
  "resolveEntry env entry =
     (case entry of (addr, data) \<Rightarrow>
        let data' =
              (if BlsKey data = None then
                 (case getNewValidatorInfo env addr (VotingPower data) of
                    Inl err \<Rightarrow> data
                  | Inr newValidatorMetaData \<Rightarrow> newValidatorMetaData)
               else data)
        in data'\<lparr>IsActive := Cmp (VotingPower data') bigZero > 0\<rparr>)"

definition newFullValidatorSet ::
  "'s collaborators \<Rightarrow> validatorStakeMap \<Rightarrow> Address list \<Rightarrow> AccountSet" where
  "newFullValidatorSet env stakeMap order = map (resolveEntry env) (range_entries stakeMap order)"

text \<open>
  \<^verbatim>\<open>PostBlock\<close>; \<open>order\<close> is the order in which the run time ranges over the stake
  map after the events were applied.
\<close>

definition PostBlock ::
  "stakeManager \<Rightarrow> 's collaborators \<Rightarrow> Address list \<Rightarrow> PostBlockRequest \<Rightarrow> 's \<Rightarrow> error + 's" where
  "PostBlock s env order req st =
     (case getTransferEventsFromReceipts s env (Receipts req) of
        Inl err \<Rightarrow> Inl err
      | Inr events \<Rightarrow>
          if length events = 0 then Inr st
          else
            (case getFullValidatorSet env st of
               Inl err \<Rightarrow> Inl err
             | Inr fullValidatorSet \<Rightarrow>
                 (case applyEvents events (newValidatorStakeMap fullValidatorSet) of
                    Inl err \<Rightarrow> Inl err
                  | Inr stakeMap \<Rightarrow>
                      insertFullValidatorSet env (newFullValidatorSet env stakeMap order) st)))"

subsection \<open>Epoch delta computation\<close>

text \<open>
  The first loop of \<^verbatim>\<open>UpdateValidatorSet\<close>, over the old validator set with its
  index \<open>i\<close>: it fills \<^verbatim>\<open>oldActiveMap\<close> and \<^verbatim>\<open>removedBitmap\<close>.
\<close>

fun indexOld ::
  "Address set \<Rightarrow> nat \<Rightarrow> AccountSet \<Rightarrow> validatorStakeMap \<times> Bitmap \<Rightarrow> validatorStakeMap \<times> Bitmap" where
  "indexOld addressesSet i [] acc = acc"
| "indexOld addressesSet i (validator # rest) acc =
     (case acc of (oldActiveMap, removedBitmap) \<Rightarrow>
        indexOld addressesSet (Suc i) rest
          (oldActiveMap(Address validator \<mapsto> validator),
           if Address validator \<notin> addressesSet then Bitmap_Set removedBitmap i
           else removedBitmap))"

text \<open>
  The second loop, over the new validator set. The state is the slices
  \<^verbatim>\<open>updatedValidators\<close> and \<^verbatim>\<open>addedValidators\<close> and the addresses the registry was
  asked for so far; the result pairs these addresses with the error or the two slices.
\<close>

fun classify ::
  "'s collaborators \<Rightarrow> validatorStakeMap \<Rightarrow> AccountSet \<Rightarrow>
   AccountSet \<times> AccountSet \<times> Address list \<Rightarrow>
   Address list \<times> (error + AccountSet \<times> AccountSet)" where
  "classify env oldActiveMap [] acc =
     (case acc of (updatedValidators, addedValidators, lookups) \<Rightarrow>
        (lookups, Inr (updatedValidators, addedValidators)))"
| "classify env oldActiveMap (newValidator # rest) acc =
     (case acc of (updatedValidators, addedValidators, lookups) \<Rightarrow>
        (case oldActiveMap (Address newValidator) of
           Some oldValidator \<Rightarrow>
             if Cmp (VotingPower oldValidator) (VotingPower newValidator) \<noteq> 0
             then classify env oldActiveMap rest
                    (updatedValidators @ [newValidator], addedValidators, lookups)
             else classify env oldActiveMap rest (updatedValidators, addedValidators, lookups)
         | None \<Rightarrow>
             if BlsKey newValidator = None then
               (case getNewValidatorInfo env (Address newValidator) (VotingPower newValidator) of
                  Inl err \<Rightarrow>
                    (lookups @ [Address newValidator],
                     Inl (Errorf ''could not retrieve validator data'' err))
                | Inr validatorData \<Rightarrow>
                    classify env oldActiveMap rest
                      (updatedValidators, addedValidators @ [validatorData],
                       lookups @ [Address newValidator]))
             else classify env oldActiveMap rest
                    (updatedValidators, addedValidators @ [newValidator], lookups)))"

text \<open>
  \<^verbatim>\<open>UpdateValidatorSet\<close>. \<open>order\<close> is the order in which \<^verbatim>\<open>getActiveValidators\<close>
  ranges over the stake map. The first component of the result lists the addresses
  for which \<^verbatim>\<open>getNewValidatorInfo\<close> was called, the second is the error or the delta.
\<close>

definition UpdateValidatorSet ::
  "stakeManager \<Rightarrow> 's collaborators \<Rightarrow> Address list \<Rightarrow> 's \<Rightarrow> 64 word \<Rightarrow> AccountSet \<Rightarrow>
   Address list \<times> (error + ValidatorSetDelta)" where
  "UpdateValidatorSet s env order st epoch oldValidatorSet =
     (case getFullValidatorSet env st of
        Inl err \<Rightarrow> ([], Inl (Errorf ''failed to get full validators set'' err))
      | Inr fullValidatorSet \<Rightarrow>
          let stakeMap = newValidatorStakeMap fullValidatorSet in
          (case getActiveValidators stakeMap order (maxValidatorSetSize s) of
             Inl err \<Rightarrow> ([], Inl err)
           | Inr newValidatorSet \<Rightarrow>
               let addressesSet = fold (\<lambda>si S. insert (Address si) S) newValidatorSet {};
                   (oldActiveMap, removedBitmap) =
                     indexOld addressesSet 0 oldValidatorSet (Map.empty, {})
               in (case classify env oldActiveMap newValidatorSet ([], [], []) of
                     (lookups, Inl err) \<Rightarrow> (lookups, Inl err)
                   | (lookups, Inr (updatedValidators, addedValidators)) \<Rightarrow>
                       let delta = \<lparr>Added = addedValidators, Updated = updatedValidators,
                                    Removed = removedBitmap\<rparr>
                       in if logger_IsDebug s then
                            (case ApplyDelta env oldValidatorSet delta of
                               Inl err \<Rightarrow> (lookups, Inl err)
                             | Inr newSet \<Rightarrow> (lookups, Inr delta))
                          else (lookups, Inr delta))))"

section \<open>The words of the specification\<close>

text \<open>
  The committee order as the specification states it: descending by voting power, ties
  broken by ascending lexicographic order of the raw bytes of the address.
\<close>

definition bytes_lex_less :: "byte list \<Rightarrow> byte list \<Rightarrow> bool" where
  "bytes_lex_less a b = ((a, b) \<in> lexord {(x, y). x < y})"

definition committee_before :: "ValidatorMetadata \<Rightarrow> ValidatorMetadata \<Rightarrow> bool" where
  "committee_before v1 v2 =
     (VotingPower v2 < VotingPower v1 \<or>
      (VotingPower v1 = VotingPower v2 \<and> bytes_lex_less (Address v1) (Address v2)))"

text \<open>
  The logs the specification expects the extraction to read: those of the receipts
  with a success status that the configured contract emitted, in receipt order and
  log order within a receipt.
\<close>

definition expected_logs :: "Address \<Rightarrow> Receipt list \<Rightarrow> Log list" where
  "expected_logs contract receipts =
     filter (\<lambda>l. Log_Address l = contract)
       (concat (map Logs (filter (\<lambda>r. Status r = Some ReceiptSuccess) receipts)))"

text \<open>
  The application rule of the specification for a delta: remove the entries at the
  marked positions of the previous committee, then append \<open>Added\<close>, then overwrite the
  entries matching \<open>Updated\<close> by address.
\<close>

definition remove_marked :: "Bitmap \<Rightarrow> AccountSet \<Rightarrow> AccountSet" where
  "remove_marked removed committee =
     map snd (filter (\<lambda>(i, v). \<not> Bitmap_IsSet removed i) (enumerate 0 committee))"

definition overwrite_by_address :: "AccountSet \<Rightarrow> AccountSet \<Rightarrow> AccountSet" where
  "overwrite_by_address updated committee =
     fold (\<lambda>u vs. map (\<lambda>v. if Address v = Address u then u else v) vs) updated committee"

definition spec_apply_delta :: "AccountSet \<Rightarrow> ValidatorSetDelta \<Rightarrow> AccountSet" where
  "spec_apply_delta committee delta =
     overwrite_by_address (Updated delta) (remove_marked (Removed delta) committee @ Added delta)"

text \<open>Address and voting power of a validator, what the committee selection reads.\<close>

definition stake_of :: "ValidatorMetadata \<Rightarrow> Address \<times> int" where
  "stake_of v = (Address v, VotingPower v)"

text \<open>
  The validators of the next committee that the specification sends to the registry
  at the epoch boundary: absent from the current committee and without a BLS key.
\<close>

definition keyless_newcomers :: "AccountSet \<Rightarrow> AccountSet \<Rightarrow> AccountSet" where
  "keyless_newcomers currentCommittee nextCommittee =
     filter (\<lambda>nv. Address nv \<notin> Address ` set currentCommittee \<and> BlsKey nv = None) nextCommittee"

section \<open>Notions used in the proofs\<close>

text \<open>
  The invariant of every stake map the code builds: an entry is stored under its own
  address.
\<close>

definition keyed_by_address :: "validatorStakeMap \<Rightarrow> bool" where
  "keyed_by_address sc = (\<forall>addr v. sc addr = Some v \<longrightarrow> Address v = addr)"

text \<open>The active validators of a stake map in committee order, before truncation.\<close>

definition active_sorted :: "validatorStakeMap \<Rightarrow> Address list \<Rightarrow> ValidatorMetadata list" where
  "active_sorted sc order =
     sort_Slice less_validator
       (filter (\<lambda>v. Cmp (VotingPower v) bigZero > 0) (range_values sc order))"

text \<open>
  What the second loop of \<^verbatim>\<open>UpdateValidatorSet\<close> does with one validator of the new
  set: \<open>needs_lookup\<close> holds when the registry is asked for it, \<open>lookup_fails\<close> when
  that call fails, \<open>resolve_added\<close> is the record appended to \<^verbatim>\<open>addedValidators\<close> for
  a validator that is not in the old set, and \<open>power_changed\<close> holds when it is
  appended to \<^verbatim>\<open>updatedValidators\<close>. \<open>expected_delta\<close> is the delta the two loops
  build when no lookup fails.
\<close>

definition resolve_added :: "'s collaborators \<Rightarrow> ValidatorMetadata \<Rightarrow> ValidatorMetadata" where
  "resolve_added env newValidator =
     (if BlsKey newValidator = None then
        (case getNewValidatorInfo env (Address newValidator) (VotingPower newValidator) of
           Inl err \<Rightarrow> newValidator
         | Inr validatorData \<Rightarrow> validatorData)
      else newValidator)"

definition needs_lookup :: "validatorStakeMap \<Rightarrow> ValidatorMetadata \<Rightarrow> bool" where
  "needs_lookup oldActiveMap newValidator =
     (oldActiveMap (Address newValidator) = None \<and> BlsKey newValidator = None)"

definition lookup_fails :: "'s collaborators \<Rightarrow> validatorStakeMap \<Rightarrow> ValidatorMetadata \<Rightarrow> bool" where
  "lookup_fails env oldActiveMap newValidator =
     (needs_lookup oldActiveMap newValidator \<and> isl (queryBlsKey env (Address newValidator)))"

definition power_changed :: "validatorStakeMap \<Rightarrow> ValidatorMetadata \<Rightarrow> bool" where
  "power_changed oldActiveMap newValidator =
     (case oldActiveMap (Address newValidator) of
        None \<Rightarrow> False
      | Some oldValidator \<Rightarrow> VotingPower oldValidator \<noteq> VotingPower newValidator)"

definition expected_delta :: "'s collaborators \<Rightarrow> AccountSet \<Rightarrow> AccountSet \<Rightarrow> ValidatorSetDelta" where
  "expected_delta env old nextSet =
     \<lparr>Added = map (resolve_added env) (filter (\<lambda>nv. Address nv \<notin> Address ` set old) nextSet),
      Updated = filter (power_changed (newValidatorStakeMap old)) nextSet,
      Removed = {j. j < length old \<and> Address (old ! j) \<notin> Address ` set nextSet}\<rparr>"

text \<open>What overwriting by address does to one entry of the committee.\<close>

definition overwritten :: "AccountSet \<Rightarrow> ValidatorMetadata \<Rightarrow> ValidatorMetadata" where
  "overwritten updated v =
     (case find (\<lambda>u. Address u = Address v) updated of None \<Rightarrow> v | Some u \<Rightarrow> u)"

section \<open>Example inputs\<close>

text \<open>
  Three 20-byte addresses, \<open>addr_A < addr_B < addr_C\<close> in byte order, a validator with
  a BLS key and one without.
\<close>

definition addr_A :: Address where
  "addr_A = [0, 0, 0, 0, 0, 0, 0, 0, 0, 0, 0, 0, 0, 0, 0, 0, 0, 0, 0, 10]"

definition addr_B :: Address where
  "addr_B = [0, 0, 0, 0, 0, 0, 0, 0, 0, 0, 0, 0, 0, 0, 0, 0, 0, 0, 0, 11]"

definition addr_C :: Address where
  "addr_C = [0, 0, 0, 0, 0, 0, 0, 0, 0, 0, 0, 0, 0, 0, 0, 0, 0, 0, 0, 12]"

definition validator :: "Address \<Rightarrow> int \<Rightarrow> ValidatorMetadata" where
  "validator a p = \<lparr>Address = a, VotingPower = p, BlsKey = Some (PublicKey [1, 2, 3, 4]),
     IsActive = True\<rparr>"

definition keyless :: "Address \<Rightarrow> int \<Rightarrow> ValidatorMetadata" where
  "keyless a p = \<lparr>Address = a, VotingPower = p, BlsKey = None, IsActive = True\<rparr>"

text \<open>
  A store that keeps the last set written and reads it back, a registry that knows
  the key of \<open>addr_C\<close> only, and a log parser that reads sender and receiver from the
  topics: a log with three topics matches, one with no topic does not, any other is
  malformed. In \<open>example_env_offline\<close> every call to the registry fails.
\<close>

definition example_env :: "AccountSet option collaborators" where
  "example_env =
     \<lparr>getFullValidatorSet =
        (\<lambda>st. case st of None \<Rightarrow> Inl (Error ''no full validator set'') | Some vs \<Rightarrow> Inr vs),
      insertFullValidatorSet = (\<lambda>vs st. Inr (Some vs)),
      queryBlsKey =
        (\<lambda>a. if a = addr_C then Inr (PublicKey [5, 6, 7, 8]) else Inl (Error ''call failed'')),
      ApplyDelta = (\<lambda>vs d. Inr vs),
      ParseLog =
        (\<lambda>l. case Topics l of
            [t, f, r] \<Rightarrow> (\<lparr>From = f, To = r, Value = int (length (Data l))\<rparr>, True, None)
          | [] \<Rightarrow> (\<lparr>From = [], To = [], Value = 0\<rparr>, False, None)
          | _ \<Rightarrow> (\<lparr>From = [], To = [], Value = 0\<rparr>, False, Some (Error ''malformed log'')))\<rparr>"

definition example_env_offline :: "AccountSet option collaborators" where
  "example_env_offline = example_env\<lparr>queryBlsKey := (\<lambda>a. Inl (Error ''call failed''))\<rparr>"

text \<open>
  The stake manager, with a maximum committee size of 2 and of 3.
\<close>

definition example_manager :: stakeManager where
  "example_manager =
     \<lparr>validatorSetContract = addr_A, supernetManagerContract = addr_B,
      maxValidatorSetSize = 2, logger_IsDebug = False\<rparr>"

definition example_manager_3 :: stakeManager where
  "example_manager_3 = example_manager\<lparr>maxValidatorSetSize := 3\<rparr>"

text \<open>
  The receipts of a block: a stake event for \<open>addr_B\<close> and an unstake event for
  \<open>addr_C\<close> from the validator-set contract in successful receipts, logs of another
  contract, a log that does not match, and receipts that failed or have no status.
\<close>

definition example_log :: "Address \<Rightarrow> byte list list \<Rightarrow> Log" where
  "example_log a ts = \<lparr>Log_Address = a, Topics = ts, Data = [1, 2, 3]\<rparr>"

definition example_receipts :: "Receipt list" where
  "example_receipts =
     [\<lparr>Status = Some ReceiptSuccess,
       Logs = [example_log addr_A [[], ZeroAddress, addr_B], example_log addr_B [[1]],
               example_log addr_A []]\<rparr>,
      \<lparr>Status = Some ReceiptFailed, Logs = [example_log addr_A [[1]]]\<rparr>,
      \<lparr>Status = None, Logs = [example_log addr_A [[1]]]\<rparr>,
      \<lparr>Status = Some ReceiptSuccess, Logs = [example_log addr_A [[], addr_C, ZeroAddress]]\<rparr>]"

definition example_events :: "TransferEvent list" where
  "example_events =
     [\<lparr>From = ZeroAddress, To = addr_B, Value = 3\<rparr>,
      \<lparr>From = addr_C, To = ZeroAddress, Value = 3\<rparr>]"

text \<open>
  The stored full set: \<open>addr_C\<close> has staked 75 and its key is not resolved yet. The
  current committee: \<open>addr_A\<close> with its previous voting power 90, and \<open>addr_B\<close>.
  \<open>resolved_C\<close> is the record the registry lookup gives for \<open>addr_C\<close>;
  \<open>example_delta\<close> and \<open>example_delta_3\<close> are the deltas for the maximum sizes 2 and 3.
\<close>

definition example_full_set :: AccountSet where
  "example_full_set = [validator addr_A 100, validator addr_B 50, keyless addr_C 75]"

definition example_committee :: AccountSet where
  "example_committee = [validator addr_A 90, validator addr_B 50]"

definition resolved_C :: ValidatorMetadata where
  "resolved_C = \<lparr>Address = addr_C, VotingPower = 75, BlsKey = Some (PublicKey [5, 6, 7, 8]),
                  IsActive = True\<rparr>"

definition example_delta :: ValidatorSetDelta where
  "example_delta =
     \<lparr>Added = [\<lparr>Address = addr_C, VotingPower = 75, BlsKey = Some (PublicKey [5, 6, 7, 8]),
                 IsActive = True\<rparr>],
      Updated = [validator addr_A 100],
      Removed = {1}\<rparr>"

definition example_delta_3 :: ValidatorSetDelta where
  "example_delta_3 = \<lparr>Added = [resolved_C], Updated = [validator addr_A 100], Removed = {}\<rparr>"

section \<open>Stake map operations\<close>

lemma Cmp_bigZero_pos [simp]: "(0 < Cmp x bigZero) = (0 < x)"
  by (simp add: Cmp_def bigZero_def)

lemma Cmp_eq_0 [simp]: "(Cmp x y = 0) = (x = y)"
  by (simp add: Cmp_def)

lemma Cmp_eq_1 [simp]: "(Cmp x y = 1) = (y < x)"
  by (simp add: Cmp_def)

lemma addStake_existing:
  "sc address = Some metadata \<Longrightarrow>
   addStake sc address amount address =
     Some (metadata\<lparr>VotingPower := VotingPower metadata + amount,
             IsActive := 0 < VotingPower metadata + amount\<rparr>)"
  by (simp add: addStake_def)

lemma addStake_absent:
  "sc address = None \<Longrightarrow>
   addStake sc address amount address =
     Some \<lparr>Address = address, VotingPower = amount, BlsKey = None, IsActive = True\<rparr>"
  by (simp add: addStake_def)

lemma addStake_other: "a \<noteq> address \<Longrightarrow> addStake sc address amount a = sc a"
  by (simp add: addStake_def split: option.splits)

text \<open>
  The mutations and the invariant \<open>IsActive = (VotingPower > 0)\<close>: it holds for the
  entry after \<^verbatim>\<open>addStake\<close> on an existing address and after \<^verbatim>\<open>removeStake\<close>; after
  \<^verbatim>\<open>addStake\<close> on an absent address the entry is active, so it holds exactly when the
  amount is positive.
\<close>

lemma addStake_existing_invariant:
  "sc address = Some metadata \<Longrightarrow>
   \<exists>v. addStake sc address amount address = Some v \<and>
       VotingPower v = VotingPower metadata + amount \<and>
       IsActive v = (0 < VotingPower v)"
  by (simp add: addStake_def)

lemma removeStake_invariant:
  "removeStake sc address amount = Inr sc' \<Longrightarrow>
   \<exists>stakeData v. sc address = Some stakeData \<and> sc' address = Some v \<and>
       VotingPower v = VotingPower stakeData - amount \<and>
       IsActive v = (0 < VotingPower v)"
  by (auto simp: removeStake_def split: option.splits)

lemma addStake_new_entry:
  "sc address = None \<Longrightarrow>
   \<exists>v. addStake sc address amount address = Some v \<and>
       VotingPower v = amount \<and> BlsKey v = None \<and> IsActive v \<and>
       ((IsActive v = (0 < VotingPower v)) = (0 < amount))"
  by (simp add: addStake_def)

text \<open>
  C4. After \<^verbatim>\<open>addStake\<close> on an absent address the new entry is active whatever the
  amount: for the amount 0 the entry has voting power 0 and \<open>IsActive\<close> true, so
  \<open>IsActive = (VotingPower > 0)\<close> does not hold for it.
\<close>

theorem addStake_new_entry_zero_amount:
  "addStake Map.empty addr_A 0 addr_A =
     Some \<lparr>Address = addr_A, VotingPower = 0, BlsKey = None, IsActive = True\<rparr> \<and>
   (\<exists>v. addStake Map.empty addr_A 0 addr_A = Some v \<and> IsActive v \<noteq> (0 < VotingPower v))"
  by (simp add: addStake_def)

text \<open>
  C9. \<^verbatim>\<open>removeStake\<close> on a present address returns the map with that entry's voting
  power decreased by the amount and \<open>IsActive\<close> recomputed, every other entry as it
  was; it faults exactly when the address is absent, and the fault is the nil
  dereference.
\<close>

theorem removeStake_faults_iff_absent:
  "(sc address = Some stakeData \<longrightarrow>
      removeStake sc address amount =
        Inr (sc(address \<mapsto> stakeData\<lparr>VotingPower := VotingPower stakeData - amount,
                   IsActive := 0 < VotingPower stakeData - amount\<rparr>))) \<and>
   ((\<exists>err. removeStake sc address amount = Inl err) = (sc address = None)) \<and>
   (sc address = None \<longrightarrow> (\<exists>msg. removeStake sc address amount = Inl (Panic msg)))"
  by (auto simp: removeStake_def split: option.splits)

theorem removeStake_faults_iff_absent_witness:
  "removeStake [addr_A \<mapsto> validator addr_A 100] addr_A 30 =
     Inr [addr_A \<mapsto> (validator addr_A 100)\<lparr>VotingPower := 70, IsActive := True\<rparr>] \<and>
   (\<exists>msg. removeStake [addr_A \<mapsto> validator addr_A 100] addr_B 30 = Inl (Panic msg))"
  using removeStake_faults_iff_absent [of "[addr_A \<mapsto> validator addr_A 100]" addr_A
      "validator addr_A 100" 30]
    removeStake_faults_iff_absent [of "[addr_A \<mapsto> validator addr_A 100]" addr_B
      "validator addr_A 100" 30]
  by (simp add: addr_A_def addr_B_def validator_def)

text \<open>
  C10. \<^verbatim>\<open>PostEpoch\<close> returns nil and leaves the store as it was for every epoch other
  than 1; for epoch 1 its result is that of writing the accounts of the request's
  validator set to the store.
\<close>

theorem PostEpoch_writes_only_at_first_epoch:
  "(NewEpochID req \<noteq> 1 \<longrightarrow> PostEpoch env req st = Inr st) \<and>
   (NewEpochID req = 1 \<longrightarrow>
      PostEpoch env req st = insertFullValidatorSet env (Accounts (ValidatorSet req)) st)"
  by (simp add: PostEpoch_def)

theorem PostEpoch_writes_only_at_first_epoch_witness:
  "PostEpoch example_env
     \<lparr>NewEpochID = 2, ValidatorSet = \<lparr>Accounts = [validator addr_B 50]\<rparr>\<rparr>
     (Some [validator addr_A 100]) = Inr (Some [validator addr_A 100]) \<and>
   PostEpoch example_env
     \<lparr>NewEpochID = 1, ValidatorSet = \<lparr>Accounts = [validator addr_B 50]\<rparr>\<rparr>
     (Some [validator addr_A 100]) = Inr (Some [validator addr_B 50])"
  using PostEpoch_writes_only_at_first_epoch [of
      "\<lparr>NewEpochID = 2, ValidatorSet = \<lparr>Accounts = [validator addr_B 50]\<rparr>\<rparr>"
      example_env "Some [validator addr_A 100]"]
    PostEpoch_writes_only_at_first_epoch [of
      "\<lparr>NewEpochID = 1, ValidatorSet = \<lparr>Accounts = [validator addr_B 50]\<rparr>\<rparr>"
      example_env "Some [validator addr_A 100]"]
  by (simp add: example_env_def)

section \<open>Extraction of the transfer events\<close>

lemma parseLogs_find:
  "parseLogs c P logs events =
     (case find (\<lambda>l. snd (snd (P l)) \<noteq> None) (filter (\<lambda>l. Log_Address l = c) logs) of
        Some l \<Rightarrow> Inl (the (snd (snd (P l))))
      | None \<Rightarrow>
          Inr (events @ map (\<lambda>l. fst (P l))
                 (filter (\<lambda>l. fst (snd (P l))) (filter (\<lambda>l. Log_Address l = c) logs))))"
proof (induction logs arbitrary: events)
  case Nil
  show ?case by simp
next
  case (Cons l logs)
  show ?case
  proof (cases "Log_Address l = c")
    case False
    then show ?thesis using Cons.IH [of events] by (simp cong: option.case_cong)
  next
    case True
    obtain ev m e where P: "P l = (ev, m, e)" by (cases "P l") auto
    show ?thesis
    proof (cases e)
      case (Some err)
      then show ?thesis using True P by (simp cong: option.case_cong)
    next
      case None
      then show ?thesis using True P Cons.IH [of events] Cons.IH [of "events @ [ev]"]
        by (simp split: option.splits cong: option.case_cong)
    qed
  qed
qed

lemma find_append:
  "find Q (xs @ ys) = (case find Q xs of None \<Rightarrow> find Q ys | Some x \<Rightarrow> Some x)"
  by (induction xs) auto

lemma receiptsLoop_find:
  "receiptsLoop c P receipts events =
     (case find (\<lambda>l. snd (snd (P l)) \<noteq> None) (expected_logs c receipts) of
        Some l \<Rightarrow> Inl (the (snd (snd (P l))))
      | None \<Rightarrow>
          Inr (events @ map (\<lambda>l. fst (P l))
                 (filter (\<lambda>l. fst (snd (P l))) (expected_logs c receipts))))"
proof (induction receipts arbitrary: events)
  case Nil
  show ?case by (simp add: expected_logs_def)
next
  case (Cons r receipts)
  show ?case
  proof (cases "Status r = Some ReceiptSuccess")
    case False
    then show ?thesis using Cons.IH [of events] by (auto simp: expected_logs_def cong: option.case_cong)
  next
    case True
    have split: "expected_logs c (r # receipts) =
        filter (\<lambda>l. Log_Address l = c) (Logs r) @ expected_logs c receipts"
      using True by (simp add: expected_logs_def)
    show ?thesis
    proof (cases "find (\<lambda>l. snd (snd (P l)) \<noteq> None) (filter (\<lambda>l. Log_Address l = c) (Logs r))")
      case (Some l)
      then show ?thesis using True split
        by (simp add: parseLogs_find find_append cong: option.case_cong)
    next
      case None
      then show ?thesis using True split
          Cons.IH [of "events @ map (\<lambda>l. fst (P l))
                 (filter (\<lambda>l. fst (snd (P l))) (filter (\<lambda>l. Log_Address l = c) (Logs r)))"]
        by (simp add: parseLogs_find find_append split: option.splits cong: option.case_cong)
    qed
  qed
qed

lemma find_first:
  "\<forall>x\<in>set pre. \<not> Q x \<Longrightarrow> Q l \<Longrightarrow> find Q (pre @ l # post) = Some l"
  by (induction pre) auto

text \<open>
  C8. The logs the extraction parses are those of the receipts with a success status
  whose address is the validator-set contract, in receipt order and log order within a
  receipt (\<open>expected_logs\<close>). When none of them fails to parse, the result is the
  events of those that match, in that order, and no error. When one of them fails to
  parse and none before it does, the result is that error and no events.
\<close>

theorem getTransferEventsFromReceipts_result:
  "((\<forall>l\<in>set (expected_logs (validatorSetContract s) receipts). snd (snd (ParseLog env l)) = None) \<longrightarrow>
      getTransferEventsFromReceipts s env receipts =
        Inr (map (\<lambda>l. fst (ParseLog env l))
              (filter (\<lambda>l. fst (snd (ParseLog env l)))
                 (expected_logs (validatorSetContract s) receipts)))) \<and>
   (\<forall>pre l post err.
      expected_logs (validatorSetContract s) receipts = pre @ l # post \<and>
      (\<forall>l'\<in>set pre. snd (snd (ParseLog env l')) = None) \<and>
      snd (snd (ParseLog env l)) = Some err \<longrightarrow>
      getTransferEventsFromReceipts s env receipts = Inl err)"
proof (intro conjI allI impI)
  assume "\<forall>l\<in>set (expected_logs (validatorSetContract s) receipts). snd (snd (ParseLog env l)) = None"
  then have "find (\<lambda>l. snd (snd (ParseLog env l)) \<noteq> None)
      (expected_logs (validatorSetContract s) receipts) = None"
    by (simp add: find_None_iff)
  then show "getTransferEventsFromReceipts s env receipts =
        Inr (map (\<lambda>l. fst (ParseLog env l))
              (filter (\<lambda>l. fst (snd (ParseLog env l)))
                 (expected_logs (validatorSetContract s) receipts)))"
    by (simp add: getTransferEventsFromReceipts_def receiptsLoop_find)
next
  fix pre l post err
  assume a: "expected_logs (validatorSetContract s) receipts = pre @ l # post \<and>
      (\<forall>l'\<in>set pre. snd (snd (ParseLog env l')) = None) \<and>
      snd (snd (ParseLog env l)) = Some err"
  then have "find (\<lambda>l. snd (snd (ParseLog env l)) \<noteq> None)
      (expected_logs (validatorSetContract s) receipts) = Some l"
    using find_first [of pre "\<lambda>l. snd (snd (ParseLog env l)) \<noteq> None" l post] by simp
  then show "getTransferEventsFromReceipts s env receipts = Inl err"
    using a by (simp add: getTransferEventsFromReceipts_def receiptsLoop_find)
qed



theorem getTransferEventsFromReceipts_result_witness:
  "getTransferEventsFromReceipts example_manager example_env example_receipts =
     Inr [\<lparr>From = ZeroAddress, To = addr_B, Value = 3\<rparr>,
          \<lparr>From = addr_C, To = ZeroAddress, Value = 3\<rparr>] \<and>
   getTransferEventsFromReceipts example_manager example_env
     (example_receipts @ [\<lparr>Status = Some ReceiptSuccess, Logs = [example_log addr_A [[1]]]\<rparr>]) =
     Inl (Error ''malformed log'')"
proof -
  have c: "validatorSetContract example_manager = addr_A"
    by (simp add: example_manager_def)
  have e1: "expected_logs addr_A example_receipts =
      [example_log addr_A [[], ZeroAddress, addr_B], example_log addr_A [],
       example_log addr_A [[], addr_C, ZeroAddress]]"
    by (simp add: expected_logs_def example_receipts_def example_log_def addr_A_def addr_B_def)
  have e2: "expected_logs addr_A
      (example_receipts @ [\<lparr>Status = Some ReceiptSuccess, Logs = [example_log addr_A [[1]]]\<rparr>]) =
      [example_log addr_A [[], ZeroAddress, addr_B], example_log addr_A [],
       example_log addr_A [[], addr_C, ZeroAddress]] @ example_log addr_A [[1]] # []"
    by (simp add: expected_logs_def example_receipts_def example_log_def addr_A_def addr_B_def)
  have p1: "ParseLog example_env (example_log addr_A [[], ZeroAddress, addr_B]) =
      (\<lparr>From = ZeroAddress, To = addr_B, Value = 3\<rparr>, True, None)"
    by (simp add: example_env_def example_log_def)
  have p2: "ParseLog example_env (example_log addr_A []) = (\<lparr>From = [], To = [], Value = 0\<rparr>, False, None)"
    by (simp add: example_env_def example_log_def)
  have p3: "ParseLog example_env (example_log addr_A [[], addr_C, ZeroAddress]) =
      (\<lparr>From = addr_C, To = ZeroAddress, Value = 3\<rparr>, True, None)"
    by (simp add: example_env_def example_log_def)
  have p4: "ParseLog example_env (example_log addr_A [[1]]) =
      (\<lparr>From = [], To = [], Value = 0\<rparr>, False, Some (Error ''malformed log''))"
    by (simp add: example_env_def example_log_def)
  have first: "getTransferEventsFromReceipts example_manager example_env example_receipts =
     Inr [\<lparr>From = ZeroAddress, To = addr_B, Value = 3\<rparr>,
          \<lparr>From = addr_C, To = ZeroAddress, Value = 3\<rparr>]"
    using getTransferEventsFromReceipts_result [of example_manager example_receipts example_env]
    by (simp add: c e1 p1 p2 p3)
  have second: "getTransferEventsFromReceipts example_manager example_env
     (example_receipts @ [\<lparr>Status = Some ReceiptSuccess, Logs = [example_log addr_A [[1]]]\<rparr>]) =
     Inl (Error ''malformed log'')"
    using getTransferEventsFromReceipts_result [of example_manager
        "example_receipts @ [\<lparr>Status = Some ReceiptSuccess, Logs = [example_log addr_A [[1]]]\<rparr>]"
        example_env, THEN conjunct2, rule_format,
        of "[example_log addr_A [[], ZeroAddress, addr_B], example_log addr_A [],
             example_log addr_A [[], addr_C, ZeroAddress]]" "example_log addr_A [[1]]" "[]"
           "Error ''malformed log''"]
    by (simp add: c e2 p1 p2 p3 p4)
  from first second show ?thesis by simp
qed

section \<open>The committee order and the sort\<close>

text \<open>
  The comparison of the code is the committee order of the specification, which is a
  strict order, total on validators with different addresses.
\<close>

lemma bytes_Compare_less_iff: "(bytes_Compare a b < 0) = bytes_lex_less a b"
  by (induction a b rule: bytes_Compare.induct) (auto simp: bytes_lex_less_def)

lemma bytes_Compare_eq_0_iff: "(bytes_Compare a b = 0) = (a = b)"
  by (induction a b rule: bytes_Compare.induct) auto

lemma less_validator_iff: "less_validator v1 v2 = committee_before v1 v2"
  by (auto simp: less_validator_def committee_before_def Let_def bytes_Compare_less_iff Cmp_def)

lemma bytes_lex_less_irrefl: "\<not> bytes_lex_less a a"
  by (simp add: bytes_lex_less_def lexord_irreflexive)

lemma bytes_lex_less_trans:
  "bytes_lex_less a b \<Longrightarrow> bytes_lex_less b c \<Longrightarrow> bytes_lex_less a c"
  unfolding bytes_lex_less_def
  by (rule lexord_trans) (auto simp: trans_def)

lemma bytes_lex_less_total: "a \<noteq> b \<Longrightarrow> bytes_lex_less a b \<or> bytes_lex_less b a"
  unfolding bytes_lex_less_def
  using lexord_linear [of "{(x, y). x < y}" a b] less_linear [where 'a = byte] by auto

lemma committee_before_irrefl: "\<not> committee_before v v"
  by (simp add: committee_before_def bytes_lex_less_irrefl)

lemma committee_before_trans:
  "committee_before a b \<Longrightarrow> committee_before b c \<Longrightarrow> committee_before a c"
  unfolding committee_before_def
  using bytes_lex_less_trans [of "Address a" "Address b" "Address c"] by auto

lemma committee_before_total:
  "Address a \<noteq> Address b \<Longrightarrow> committee_before a b \<or> committee_before b a"
  unfolding committee_before_def
  using bytes_lex_less_total [of "Address a" "Address b"] by auto

lemma set_insort_by [simp]: "set (insort_by f x xs) = insert x (set xs)"
  by (induction xs) auto

lemma mset_insort_by [simp]: "mset (insort_by f x xs) = add_mset x (mset xs)"
  by (induction xs) auto

lemma mset_sort_Slice [simp]: "mset (sort_Slice f xs) = mset xs"
  by (induction xs) (auto simp: sort_Slice_def)

lemma set_sort_Slice [simp]: "set (sort_Slice f xs) = set xs"
  using mset_sort_Slice [of f xs] by (metis set_mset_mset)

lemma length_sort_Slice [simp]: "length (sort_Slice f xs) = length xs"
  using mset_sort_Slice [of f xs] by (metis size_mset)

lemma sorted_insort_by:
  "sorted_wrt committee_before ys \<Longrightarrow> Address x \<notin> Address ` set ys \<Longrightarrow>
   sorted_wrt committee_before (insort_by less_validator x ys)"
proof (induction ys)
  case Nil
  show ?case by simp
next
  case (Cons y ys)
  show ?case
  proof (cases "committee_before y x")
    case True
    then show ?thesis using Cons by (auto simp: less_validator_iff)
  next
    case False
    then have xy: "committee_before x y"
      using Cons.prems(2) committee_before_total [of x y] by auto
    then have "\<forall>z\<in>set ys. committee_before x z"
      using Cons.prems(1) committee_before_trans by auto
    then show ?thesis using False xy Cons.prems(1) by (simp add: less_validator_iff)
  qed
qed

lemma sorted_sort_Slice:
  "distinct (map Address xs) \<Longrightarrow> sorted_wrt committee_before (sort_Slice less_validator xs)"
proof (induction xs)
  case Nil
  show ?case by (simp add: sort_Slice_def)
next
  case (Cons x xs)
  have "sort_Slice less_validator (x # xs) = insort_by less_validator x (sort_Slice less_validator xs)"
    by (simp add: sort_Slice_def)
  moreover have "Address x \<notin> Address ` set (sort_Slice less_validator xs)"
    using Cons.prems by auto
  ultimately show ?case using Cons by (simp add: sorted_insort_by)
qed

lemma strict_sorted_unique:
  assumes irrefl: "\<And>a. \<not> R a a"
    and trans: "\<And>a b c. R a b \<Longrightarrow> R b c \<Longrightarrow> R a c"
  shows "sorted_wrt R xs \<Longrightarrow> sorted_wrt R ys \<Longrightarrow> set xs = set ys \<Longrightarrow> xs = ys"
proof (induction xs arbitrary: ys)
  case Nil
  then show ?case by simp
next
  case (Cons x xs)
  then obtain y ys' where ys: "ys = y # ys'" by (cases ys) auto
  have xy: "x = y"
  proof (rule ccontr)
    assume ne: "x \<noteq> y"
    then have "x \<in> set ys'" using Cons.prems(3) ys by auto
    then have 1: "R y x" using Cons.prems(2) ys by auto
    have "y \<in> set xs" using Cons.prems(3) ys ne by auto
    then have 2: "R x y" using Cons.prems(1) by auto
    from 1 2 show False using trans irrefl by blast
  qed
  have nx: "x \<notin> set xs" using Cons.prems(1) irrefl by auto
  have ny: "y \<notin> set ys'" using Cons.prems(2) ys irrefl by auto
  have "set xs = set ys'" using Cons.prems(3) ys xy nx ny by auto
  then have "xs = ys'" using Cons.IH [of ys'] Cons.prems ys by simp
  then show ?case using xy ys by simp
qed

lemma sort_Slice_unique:
  assumes "distinct (map Address xs)" "mset ys = mset xs" "sorted_wrt committee_before ys"
  shows "ys = sort_Slice less_validator xs"
proof (rule strict_sorted_unique [of committee_before])
  show "\<not> committee_before a a" for a by (rule committee_before_irrefl)
  show "committee_before a b \<Longrightarrow> committee_before b c \<Longrightarrow> committee_before a c" for a b c
    by (rule committee_before_trans)
  show "sorted_wrt committee_before ys" by fact
  show "sorted_wrt committee_before (sort_Slice less_validator xs)"
    using assms(1) by (rule sorted_sort_Slice)
  show "set ys = set (sort_Slice less_validator xs)"
    using assms(2) by (metis set_sort_Slice set_mset_mset)
qed

section \<open>Ranging over a stake map\<close>

lemma range_entries_Cons:
  "range_entries sc (a # order) =
     (case sc a of None \<Rightarrow> range_entries sc order | Some v \<Rightarrow> (a, v) # range_entries sc order)"
  by (simp add: range_entries_def List.map_filter_simps split: option.splits)

lemma range_entries_Nil [simp]: "range_entries sc [] = []"
  by (simp add: range_entries_def List.map_filter_simps)

lemma range_entries_dom:
  "set order \<subseteq> dom sc \<Longrightarrow> range_entries sc order = map (\<lambda>a. (a, the (sc a))) order"
  by (induction order) (auto simp: range_entries_Cons)

lemma set_range_values:
  "set order = dom sc \<Longrightarrow> set (range_values sc order) = ran sc"
  by (force simp: range_values_def range_entries_dom ran_def dom_def image_iff)

lemma map_Address_range_values:
  "keyed_by_address sc \<Longrightarrow> set order \<subseteq> dom sc \<Longrightarrow>
   map Address (range_values sc order) = order"
  by (induction order) (auto simp: range_values_def range_entries_dom keyed_by_address_def)

section \<open>Stake maps built by the code\<close>

lemma keyed_by_address_upd:
  "keyed_by_address m \<Longrightarrow> keyed_by_address (m(Address v \<mapsto> v))"
  by (simp add: keyed_by_address_def)

lemma keyed_by_address_fold:
  "keyed_by_address m \<Longrightarrow>
   keyed_by_address (fold (\<lambda>v stakeMap. stakeMap(Address v \<mapsto> v)) vs m)"
proof (induction vs arbitrary: m)
  case Nil
  then show ?case by simp
next
  case (Cons v vs)
  show ?case using Cons.IH [OF keyed_by_address_upd [OF Cons.prems]] by simp
qed

lemma keyed_by_address_newValidatorStakeMap: "keyed_by_address (newValidatorStakeMap vs)"
  unfolding newValidatorStakeMap_def
  by (rule keyed_by_address_fold) (simp add: keyed_by_address_def)

lemma keyed_by_address_addStake:
  "keyed_by_address sc \<Longrightarrow> keyed_by_address (addStake sc address amount)"
  by (auto simp: keyed_by_address_def addStake_def split: option.splits if_splits)

lemma keyed_by_address_removeStake:
  "keyed_by_address sc \<Longrightarrow> removeStake sc address amount = Inr sc' \<Longrightarrow> keyed_by_address sc'"
  by (auto simp: keyed_by_address_def removeStake_def split: option.splits if_splits)

section \<open>Selection of the committee\<close>

lemma active_sorted_props:
  assumes "keyed_by_address sc" "iteration_order sc order"
  shows "sorted_wrt committee_before (active_sorted sc order)"
    and "set (active_sorted sc order) = {v \<in> ran sc. 0 < VotingPower v}"
    and "distinct (map Address (active_sorted sc order))"
proof -
  have sub: "set order \<subseteq> dom sc" and eq: "set order = dom sc" and d: "distinct order"
    using assms(2) by (auto simp: iteration_order_def)
  have dm: "distinct (map Address (range_values sc order))"
    using map_Address_range_values [OF assms(1) sub] d by simp
  then have df: "distinct (map Address
      (filter (\<lambda>v. Cmp (VotingPower v) bigZero > 0) (range_values sc order)))"
    by (simp add: distinct_map_filter)
  then show "sorted_wrt committee_before (active_sorted sc order)"
    unfolding active_sorted_def by (rule sorted_sort_Slice)
  show "set (active_sorted sc order) = {v \<in> ran sc. 0 < VotingPower v}"
    unfolding active_sorted_def using set_range_values [OF eq] by auto
  have "mset (map Address (active_sorted sc order)) =
      mset (map Address (filter (\<lambda>v. Cmp (VotingPower v) bigZero > 0) (range_values sc order)))"
    unfolding active_sorted_def by simp
  then show "distinct (map Address (active_sorted sc order))"
    using df by (metis mset_eq_imp_distinct_iff)
qed

lemma getActiveValidators_eq:
  "getActiveValidators sc order maxSize =
     (if int (length (active_sorted sc order)) \<le> maxSize then Inr (active_sorted sc order)
      else if maxSize < 0 then Inl (Panic ''slice bounds out of range'')
      else Inr (take (nat maxSize) (active_sorted sc order)))"
  by (simp add: getActiveValidators_def active_sorted_def Let_def)

lemma getActiveValidators_take:
  "0 \<le> maxSize \<Longrightarrow>
   getActiveValidators sc order maxSize = Inr (take (nat maxSize) (active_sorted sc order))"
  by (simp add: getActiveValidators_eq)

lemma getActiveValidators_negative:
  "maxSize < 0 \<Longrightarrow> getActiveValidators sc order maxSize = Inl (Panic ''slice bounds out of range'')"
  by (simp add: getActiveValidators_eq)

lemma getActiveValidators_Inr:
  "getActiveValidators sc order maxSize = Inr res \<Longrightarrow>
   0 \<le> maxSize \<and> res = take (nat maxSize) (active_sorted sc order)"
  by (auto simp: getActiveValidators_eq split: if_splits)

section \<open>Facts about the example inputs\<close>

lemma addr_neq [simp]:
  "addr_A \<noteq> addr_B" "addr_B \<noteq> addr_A" "addr_A \<noteq> addr_C" "addr_C \<noteq> addr_A"
  "addr_B \<noteq> addr_C" "addr_C \<noteq> addr_B"
  by (simp_all add: addr_A_def addr_B_def addr_C_def)

lemma addr_compare [simp]:
  "bytes_Compare addr_A addr_B = - 1" "bytes_Compare addr_B addr_A = 1"
  "bytes_Compare addr_A addr_C = - 1" "bytes_Compare addr_C addr_A = 1"
  "bytes_Compare addr_B addr_C = - 1" "bytes_Compare addr_C addr_B = 1"
  by (simp_all add: addr_A_def addr_B_def addr_C_def)

lemma validator_sel [simp]:
  "Address (validator a p) = a" "VotingPower (validator a p) = p"
  "BlsKey (validator a p) = Some (PublicKey [1, 2, 3, 4])" "IsActive (validator a p) = True"
  by (simp_all add: validator_def)

lemma validator_eq_iff [simp]: "(validator a p = validator b q) = (a = b \<and> p = q)"
  by (auto simp: validator_def)

lemma keyless_sel [simp]:
  "Address (keyless a p) = a" "VotingPower (keyless a p) = p"
  "BlsKey (keyless a p) = None" "IsActive (keyless a p) = True"
  by (simp_all add: keyless_def)

lemma keyless_eq_iff [simp]:
  "(keyless a p = keyless b q) = (a = b \<and> p = q)"
  "keyless a p \<noteq> validator b q" "validator b q \<noteq> keyless a p"
  by (auto simp: keyless_def validator_def)

lemma example_stake_map:
  "newValidatorStakeMap example_full_set =
     [addr_A \<mapsto> validator addr_A 100, addr_B \<mapsto> validator addr_B 50,
      addr_C \<mapsto> keyless addr_C 75]"
  by (simp add: newValidatorStakeMap_def example_full_set_def)

lemma example_iteration_order:
  "iteration_order (newValidatorStakeMap example_full_set) [addr_C, addr_A, addr_B]"
  "iteration_order (newValidatorStakeMap example_full_set) [addr_B, addr_C, addr_A]"
  by (auto simp add: iteration_order_def example_stake_map)

lemma example_range_values:
  "range_values (newValidatorStakeMap example_full_set) [addr_C, addr_A, addr_B] =
     [keyless addr_C 75, validator addr_A 100, validator addr_B 50]"
  "range_values (newValidatorStakeMap example_full_set) [addr_B, addr_C, addr_A] =
     [validator addr_B 50, keyless addr_C 75, validator addr_A 100]"
  by (simp_all add: example_stake_map range_values_def range_entries_def List.map_filter_simps)

lemma example_active_sorted:
  "active_sorted (newValidatorStakeMap example_full_set) [addr_C, addr_A, addr_B] =
     [validator addr_A 100, keyless addr_C 75, validator addr_B 50]"
  "active_sorted (newValidatorStakeMap example_full_set) [addr_B, addr_C, addr_A] =
     [validator addr_A 100, keyless addr_C 75, validator addr_B 50]"
  by (simp_all add: active_sorted_def example_range_values sort_Slice_def less_validator_def)

lemma example_getActiveValidators:
  "getActiveValidators (newValidatorStakeMap example_full_set) [addr_C, addr_A, addr_B] 2 =
     Inr [validator addr_A 100, keyless addr_C 75]"
  "getActiveValidators (newValidatorStakeMap example_full_set) [addr_B, addr_C, addr_A] 2 =
     Inr [validator addr_A 100, keyless addr_C 75]"
  "getActiveValidators (newValidatorStakeMap example_full_set) [addr_C, addr_A, addr_B] 3 =
     Inr [validator addr_A 100, keyless addr_C 75, validator addr_B 50]"
  by (simp_all add: getActiveValidators_eq example_active_sorted)

text \<open>
  C2. For a stake map whose entries are stored under their own addresses (every stake
  map the code builds), ranged over in any order, and a maximum size that is not
  negative, \<^verbatim>\<open>getActiveValidators\<close> returns a list that is sorted in the committee
  order (descending voting power, ties by ascending address bytes; the order is
  strict, so no entry occurs twice), holds only entries with positive voting power,
  has as many entries as there are such entries but at most the maximum size, holds
  all of them when there are at most that many, and otherwise holds the first ones in
  the committee order. (For a negative maximum size the slice expression panics, see
  \<open>getActiveValidators_negative\<close>.)
\<close>

theorem getActiveValidators_sorted_top:
  assumes "keyed_by_address sc" "iteration_order sc order" "0 \<le> maxSize"
  shows "\<exists>res. getActiveValidators sc order maxSize = Inr res \<and>
           sorted_wrt committee_before res \<and>
           set res \<subseteq> {v \<in> ran sc. 0 < VotingPower v} \<and>
           length res = min (card {v \<in> ran sc. 0 < VotingPower v}) (nat maxSize) \<and>
           int (length res) \<le> maxSize \<and>
           (int (card {v \<in> ran sc. 0 < VotingPower v}) \<le> maxSize \<longrightarrow>
              set res = {v \<in> ran sc. 0 < VotingPower v}) \<and>
           (\<forall>v\<in>set res. \<forall>w\<in>{v \<in> ran sc. 0 < VotingPower v} - set res. committee_before v w)"
proof -
  let ?all = "active_sorted sc order"
  let ?res = "take (nat maxSize) ?all"
  let ?A = "{v \<in> ran sc. 0 < VotingPower v}"
  note p = active_sorted_props [OF assms(1,2)]
  have dist: "distinct ?all" using p(3) by (simp add: distinct_map)
  have card: "card ?A = length ?all" using p(2) dist by (metis distinct_card)
  have split: "?all = ?res @ drop (nat maxSize) ?all" by simp
  have sorted_split: "sorted_wrt committee_before (?res @ drop (nat maxSize) ?all)"
    using p(1) by simp
  have 1: "getActiveValidators sc order maxSize = Inr ?res"
    using assms(3) by (rule getActiveValidators_take)
  have 2: "sorted_wrt committee_before ?res"
    using sorted_split unfolding sorted_wrt_append by blast
  have 3: "set ?res \<subseteq> ?A" using p(2) set_take_subset [of "nat maxSize" ?all] by blast
  have 4: "length ?res = min (card ?A) (nat maxSize)" using card by simp
  have 5: "int (length ?res) \<le> maxSize" using assms(3) by simp
  have 6: "int (card ?A) \<le> maxSize \<longrightarrow> set ?res = ?A" using card p(2) by auto
  have 7: "\<forall>v\<in>set ?res. \<forall>w\<in>?A - set ?res. committee_before v w"
  proof (intro ballI)
    fix v w assume v: "v \<in> set ?res" and w: "w \<in> ?A - set ?res"
    have "set ?all = set ?res \<union> set (drop (nat maxSize) ?all)"
      by (metis append_take_drop_id set_append)
    then have "w \<in> set (drop (nat maxSize) ?all)" using w p(2) by auto
    then show "committee_before v w" using v sorted_split unfolding sorted_wrt_append by blast
  qed
  from 1 2 3 4 5 6 7 show ?thesis by blast
qed


theorem getActiveValidators_sorted_top_witness:
  "keyed_by_address (newValidatorStakeMap example_full_set) \<and>
   iteration_order (newValidatorStakeMap example_full_set) [addr_C, addr_A, addr_B] \<and>
   (0::int) \<le> 2 \<and>
   (\<exists>res. getActiveValidators (newValidatorStakeMap example_full_set)
            [addr_C, addr_A, addr_B] 2 = Inr res \<and>
          sorted_wrt committee_before res \<and> int (length res) \<le> 2) \<and>
   getActiveValidators (newValidatorStakeMap example_full_set) [addr_C, addr_A, addr_B] 2 =
     Inr [validator addr_A 100, keyless addr_C 75]"
proof -
  have k: "keyed_by_address (newValidatorStakeMap example_full_set)"
    by (rule keyed_by_address_newValidatorStakeMap)
  have i: "iteration_order (newValidatorStakeMap example_full_set) [addr_C, addr_A, addr_B]"
    by (rule example_iteration_order)
  have z: "(0::int) \<le> 2" by simp
  from getActiveValidators_sorted_top [OF k i z] k i example_getActiveValidators(1)
  show ?thesis by auto
qed

section \<open>The delta of an epoch\<close>

lemma active_sorted_order_irrelevant:
  assumes "keyed_by_address sc" "iteration_order sc order1" "iteration_order sc order2"
  shows "active_sorted sc order1 = active_sorted sc order2"
proof (rule strict_sorted_unique [of committee_before])
  show "\<not> committee_before a a" for a by (rule committee_before_irrefl)
  show "committee_before a b \<Longrightarrow> committee_before b c \<Longrightarrow> committee_before a c" for a b c
    by (rule committee_before_trans)
  show "sorted_wrt committee_before (active_sorted sc order1)"
    using assms(1,2) by (rule active_sorted_props(1))
  show "sorted_wrt committee_before (active_sorted sc order2)"
    using assms(1,3) by (rule active_sorted_props(1))
  show "set (active_sorted sc order1) = set (active_sorted sc order2)"
    using active_sorted_props(2) [OF assms(1,2)] active_sorted_props(2) [OF assms(1,3)] by simp
qed

lemma getActiveValidators_order_irrelevant:
  assumes "keyed_by_address sc" "iteration_order sc order1" "iteration_order sc order2"
  shows "getActiveValidators sc order1 maxSize = getActiveValidators sc order2 maxSize"
  using active_sorted_order_irrelevant [OF assms] by (simp add: getActiveValidators_eq)

lemma indexOld_fst:
  "fst (indexOld S i old (m, b)) = fold (\<lambda>v m. m(Address v \<mapsto> v)) old m"
  by (induction old arbitrary: i m b) simp_all

lemma indexOld_snd:
  "snd (indexOld S i old (m, b)) = b \<union> {i + j |j. j < length old \<and> Address (old ! j) \<notin> S}"
proof (induction old arbitrary: i m b)
  case Nil
  show ?case by simp
next
  case (Cons v rest)
  have split: "{i + j |j. j < length (v # rest) \<and> Address ((v # rest) ! j) \<notin> S} =
      (if Address v \<notin> S then {i} else {}) \<union>
      {Suc i + j |j. j < length rest \<and> Address (rest ! j) \<notin> S}" (is "?L = ?R")
  proof (rule set_eqI)
    fix x
    show "(x \<in> ?L) = (x \<in> ?R)"
    proof
      assume "x \<in> ?L"
      then obtain j where j: "x = i + j" "j < length (v # rest)" "Address ((v # rest) ! j) \<notin> S"
        by blast
      show "x \<in> ?R"
      proof (cases j)
        case 0
        then show ?thesis using j by simp
      next
        case (Suc k)
        then have "x = Suc i + k \<and> k < length rest \<and> Address (rest ! k) \<notin> S" using j by simp
        then show ?thesis by blast
      qed
    next
      assume "x \<in> ?R"
      then consider "Address v \<notin> S" "x = i"
        | k where "x = Suc i + k" "k < length rest" "Address (rest ! k) \<notin> S"
        by (auto split: if_splits)
      then show "x \<in> ?L"
      proof cases
        case 1
        then have "x = i + 0 \<and> 0 < length (v # rest) \<and> Address ((v # rest) ! 0) \<notin> S" by simp
        then show ?thesis by blast
      next
        case 2
        then have "x = i + Suc k \<and> Suc k < length (v # rest) \<and> Address ((v # rest) ! Suc k) \<notin> S"
          by simp
        then show ?thesis by blast
      qed
    qed
  qed
  show ?case using Cons.IH [of "Suc i"] unfolding split
    by (auto simp: Bitmap_Set_def)
qed

lemma fold_upd_notin:
  "a \<notin> Address ` set vs \<Longrightarrow> fold (\<lambda>v m. m(Address v \<mapsto> v)) vs m a = m a"
  by (induction vs arbitrary: m) auto

lemma fold_upd_in:
  "distinct (map Address vs) \<Longrightarrow> v \<in> set vs \<Longrightarrow>
   fold (\<lambda>v m. m(Address v \<mapsto> v)) vs m (Address v) = Some v"
proof (induction vs arbitrary: m)
  case Nil
  then show ?case by simp
next
  case (Cons w vs)
  show ?case
  proof (cases "v = w")
    case True
    then have "Address w \<notin> Address ` set vs" using Cons.prems(1) by auto
    then have "fold (\<lambda>v m. m(Address v \<mapsto> v)) vs (m(Address w \<mapsto> w)) (Address w) =
        (m(Address w \<mapsto> w)) (Address w)"
      by (rule fold_upd_notin)
    then have "fold (\<lambda>v m. m(Address v \<mapsto> v)) vs (m(Address w \<mapsto> w)) (Address w) = Some w"
      by (simp only: fun_upd_same)
    moreover have "fold (\<lambda>v m. m(Address v \<mapsto> v)) (w # vs) m =
        fold (\<lambda>v m. m(Address v \<mapsto> v)) vs (m(Address w \<mapsto> w))"
      by (simp only: fold_Cons comp_apply)
    ultimately show ?thesis unfolding True by (simp only:)
  next
    case False
    then show ?thesis using Cons by simp
  qed
qed

lemma fold_upd_None_iff:
  "(fold (\<lambda>v m. m(Address v \<mapsto> v)) vs m a = None) = (a \<notin> Address ` set vs \<and> m a = None)"
  by (induction vs arbitrary: m) auto

lemma newValidatorStakeMap_None_iff:
  "(newValidatorStakeMap vs a = None) = (a \<notin> Address ` set vs)"
  by (simp add: newValidatorStakeMap_def fold_upd_None_iff)

lemma newValidatorStakeMap_Some_iff:
  assumes "distinct (map Address vs)"
  shows "(newValidatorStakeMap vs a = Some v) = (v \<in> set vs \<and> Address v = a)"
proof
  assume s: "newValidatorStakeMap vs a = Some v"
  then have "a \<in> Address ` set vs"
    using newValidatorStakeMap_None_iff [of vs a] by auto
  then obtain w where w: "w \<in> set vs" "Address w = a" by auto
  then have "newValidatorStakeMap vs a = Some w"
    using fold_upd_in [OF assms, of w Map.empty] by (simp add: newValidatorStakeMap_def)
  then show "v \<in> set vs \<and> Address v = a" using s w by simp
next
  assume "v \<in> set vs \<and> Address v = a"
  then show "newValidatorStakeMap vs a = Some v"
    using fold_upd_in [OF assms, of v Map.empty] by (auto simp: newValidatorStakeMap_def)
qed

lemma indexOld_result:
  "indexOld S 0 old (Map.empty, {}) =
     (newValidatorStakeMap old, {j. j < length old \<and> Address (old ! j) \<notin> S})"
  using indexOld_fst [of S 0 old Map.empty "{}"] indexOld_snd [of S 0 old Map.empty "{}"]
  by (simp add: newValidatorStakeMap_def prod_eq_iff)

lemma fold_insert_Address:
  "fold (\<lambda>si S. insert (Address si) S) vs S0 = S0 \<union> Address ` set vs"
  by (induction vs arbitrary: S0) auto


lemma classify_eq:
  "classify env old nextSet (u0, a0, l0) =
     (case find (lookup_fails env old) nextSet of
        None \<Rightarrow>
          (l0 @ map Address (filter (needs_lookup old) nextSet),
           Inr (u0 @ filter (power_changed old) nextSet,
                a0 @ map (resolve_added env) (filter (\<lambda>nv. old (Address nv) = None) nextSet)))
      | Some nv \<Rightarrow>
          (l0 @ map Address (filter (needs_lookup old)
                  (takeWhile (\<lambda>x. \<not> lookup_fails env old x) nextSet)) @ [Address nv],
           Inl (Errorf ''could not retrieve validator data''
                  (projl (queryBlsKey env (Address nv))))))"
proof (induction nextSet arbitrary: u0 a0 l0)
  case Nil
  show ?case by simp
next
  case (Cons x rest)
  show ?case
  proof (cases "old (Address x)")
    case (Some ov)
    then have nf: "\<not> lookup_fails env old x" and nn: "\<not> needs_lookup old x"
      by (simp_all add: lookup_fails_def needs_lookup_def)
    show ?thesis
    proof (cases "VotingPower ov = VotingPower x")
      case True
      then have "\<not> power_changed old x" using Some by (simp add: power_changed_def)
      then show ?thesis using Some True nf nn Cons.IH [of u0 a0 l0]
        by (simp cong: option.case_cong)
    next
      case False
      then have "power_changed old x" using Some by (simp add: power_changed_def)
      then show ?thesis using Some False nf nn Cons.IH [of "u0 @ [x]" a0 l0]
        by (simp cong: option.case_cong)
    qed
  next
    case None
    then have npc: "\<not> power_changed old x" by (simp add: power_changed_def)
    show ?thesis
    proof (cases "BlsKey x")
      case (Some k)
      then have nf: "\<not> lookup_fails env old x" and nn: "\<not> needs_lookup old x"
        by (simp_all add: lookup_fails_def needs_lookup_def)
      have ra: "resolve_added env x = x" using Some by (simp add: resolve_added_def)
      show ?thesis using None Some nf nn npc ra Cons.IH [of u0 "a0 @ [x]" l0]
        by (simp cong: option.case_cong)
    next
      case nokey: None
      have nl: "needs_lookup old x" using None nokey by (simp add: needs_lookup_def)
      show ?thesis
      proof (cases "queryBlsKey env (Address x)")
        case (Inl err)
        then have f: "lookup_fails env old x" using nl by (simp add: lookup_fails_def)
        have g: "getNewValidatorInfo env (Address x) (VotingPower x) = Inl err"
          using Inl by (simp add: getNewValidatorInfo_def)
        show ?thesis using None nokey f g Inl by simp
      next
        case (Inr pubKey)
        then have nf: "\<not> lookup_fails env old x" by (simp add: lookup_fails_def)
        obtain vd where g: "getNewValidatorInfo env (Address x) (VotingPower x) = Inr vd"
          using Inr by (simp add: getNewValidatorInfo_def)
        have ra: "resolve_added env x = vd" using nokey g by (simp add: resolve_added_def)
        show ?thesis using None nokey nf nl npc g ra Cons.IH [of u0 "a0 @ [vd]" "l0 @ [Address x]"]
          by (simp cong: option.case_cong)
      qed
    qed
  qed
qed


lemma UpdateValidatorSet_eq:
  assumes "getFullValidatorSet env st = Inr fullValidatorSet"
    and "getActiveValidators (newValidatorStakeMap fullValidatorSet) order (maxValidatorSetSize s) =
         Inr nextSet"
  shows "UpdateValidatorSet s env order st epoch old =
     (case find (lookup_fails env (newValidatorStakeMap old)) nextSet of
        None \<Rightarrow>
          (map Address (filter (needs_lookup (newValidatorStakeMap old)) nextSet),
           if logger_IsDebug s then
             (case ApplyDelta env old (expected_delta env old nextSet) of
                Inl err \<Rightarrow> Inl err
              | Inr newSet \<Rightarrow> Inr (expected_delta env old nextSet))
           else Inr (expected_delta env old nextSet))
      | Some nv \<Rightarrow>
          (map Address (filter (needs_lookup (newValidatorStakeMap old))
                  (takeWhile (\<lambda>x. \<not> lookup_fails env (newValidatorStakeMap old) x) nextSet)) @
             [Address nv],
           Inl (Errorf ''could not retrieve validator data''
                  (projl (queryBlsKey env (Address nv))))))"
proof -
  have S: "fold (\<lambda>si S. insert (Address si) S) nextSet {} = Address ` set nextSet"
    by (simp add: fold_insert_Address)
  have absent: "filter (\<lambda>nv. newValidatorStakeMap old (Address nv) = None) nextSet =
      filter (\<lambda>nv. Address nv \<notin> Address ` set old) nextSet"
    by (simp add: newValidatorStakeMap_None_iff)
  show ?thesis
  proof (cases "find (lookup_fails env (newValidatorStakeMap old)) nextSet")
    case None
    then show ?thesis
      using assms absent
      by (simp add: UpdateValidatorSet_def S indexOld_result classify_eq expected_delta_def
          split: sum.splits)
  next
    case (Some nv)
    then show ?thesis
      using assms
      by (simp add: UpdateValidatorSet_def S indexOld_result classify_eq)
  qed
qed


lemma needs_lookup_iff:
  "needs_lookup (newValidatorStakeMap old) nv =
     (Address nv \<notin> Address ` set old \<and> BlsKey nv = None)"
  by (simp add: needs_lookup_def newValidatorStakeMap_None_iff)

lemma filter_needs_lookup:
  "filter (needs_lookup (newValidatorStakeMap old)) xs = keyless_newcomers old xs"
  unfolding keyless_newcomers_def
  by (rule filter_cong) (simp_all add: needs_lookup_iff)

lemma find_Some_split:
  "find P xs = Some x \<Longrightarrow>
   P x \<and> (\<exists>post. xs = takeWhile (\<lambda>y. \<not> P y) xs @ x # post)"
  by (induction xs) (auto split: if_splits)

lemma power_changed_iff:
  assumes "distinct (map Address old)"
  shows "power_changed (newValidatorStakeMap old) nv =
     (\<exists>ov\<in>set old. Address ov = Address nv \<and> VotingPower ov \<noteq> VotingPower nv)"
proof (cases "newValidatorStakeMap old (Address nv)")
  case None
  then have notin: "Address nv \<notin> Address ` set old" by (simp add: newValidatorStakeMap_None_iff)
  have "\<not> (\<exists>ov\<in>set old. Address ov = Address nv \<and> VotingPower ov \<noteq> VotingPower nv)"
  proof
    assume "\<exists>ov\<in>set old. Address ov = Address nv \<and> VotingPower ov \<noteq> VotingPower nv"
    then obtain ov where ov: "ov \<in> set old" "Address ov = Address nv" by blast
    show False using imageI [OF ov(1), of Address] ov(2) notin by simp
  qed
  moreover have "\<not> power_changed (newValidatorStakeMap old) nv"
    using None by (simp add: power_changed_def)
  ultimately show ?thesis by simp
next
  case (Some ov)
  then have ov: "ov \<in> set old" "Address ov = Address nv"
    using newValidatorStakeMap_Some_iff [OF assms, of "Address nv" ov] by simp_all
  have pc: "power_changed (newValidatorStakeMap old) nv = (VotingPower ov \<noteq> VotingPower nv)"
    using Some by (simp add: power_changed_def)
  show ?thesis
  proof
    assume "power_changed (newValidatorStakeMap old) nv"
    then have "VotingPower ov \<noteq> VotingPower nv" using pc by simp
    then show "\<exists>ov\<in>set old. Address ov = Address nv \<and> VotingPower ov \<noteq> VotingPower nv"
      using ov by blast
  next
    assume "\<exists>ov\<in>set old. Address ov = Address nv \<and> VotingPower ov \<noteq> VotingPower nv"
    then obtain w where w: "w \<in> set old" "Address w = Address nv"
      "VotingPower w \<noteq> VotingPower nv" by blast
    have "newValidatorStakeMap old (Address nv) = Some w"
      using newValidatorStakeMap_Some_iff [OF assms, of "Address nv" w] w by simp
    then have "w = ov" using Some by simp
    then show "power_changed (newValidatorStakeMap old) nv" using pc w(3) by simp
  qed
qed

lemma resolve_added_props:
  assumes "\<not> lookup_fails env (newValidatorStakeMap old) nv"
    and "Address nv \<notin> Address ` set old"
  shows "Address (resolve_added env nv) = Address nv"
    and "VotingPower (resolve_added env nv) = VotingPower nv"
    and "BlsKey (resolve_added env nv) \<noteq> None"
    and "BlsKey nv \<noteq> None \<Longrightarrow> resolve_added env nv = nv"
proof -
  show "BlsKey nv \<noteq> None \<Longrightarrow> resolve_added env nv = nv"
    by (auto simp: resolve_added_def)
  show "Address (resolve_added env nv) = Address nv"
    by (simp add: resolve_added_def getNewValidatorInfo_def split: sum.splits)
  show "VotingPower (resolve_added env nv) = VotingPower nv"
    by (simp add: resolve_added_def getNewValidatorInfo_def split: sum.splits)
  show "BlsKey (resolve_added env nv) \<noteq> None"
  proof (cases "BlsKey nv")
    case None
    then have "\<not> isl (queryBlsKey env (Address nv))"
      using assms by (simp add: lookup_fails_def needs_lookup_iff)
    then obtain k where "queryBlsKey env (Address nv) = Inr k"
      by (cases "queryBlsKey env (Address nv)") auto
    then show ?thesis using None by (simp add: resolve_added_def getNewValidatorInfo_def)
  next
    case (Some k)
    then show ?thesis by (simp add: resolve_added_def)
  qed
qed

lemma getActiveValidators_distinct:
  assumes "keyed_by_address sc" "iteration_order sc order"
    and "getActiveValidators sc order maxSize = Inr nextSet"
  shows "distinct (map Address nextSet)"
proof -
  have "nextSet = take (nat maxSize) (active_sorted sc order)"
    using getActiveValidators_Inr [OF assms(3)] by simp
  then have "map Address nextSet = take (nat maxSize) (map Address (active_sorted sc order))"
    by (simp add: take_map)
  then show ?thesis using active_sorted_props(3) [OF assms(1,2)] by simp
qed

lemma same_Address_same_entry:
  "distinct (map Address xs) \<Longrightarrow> x \<in> set xs \<Longrightarrow> y \<in> set xs \<Longrightarrow>
   Address x = Address y \<Longrightarrow> x = y"
  unfolding distinct_map by (rule inj_onD [of Address "set xs"]) simp_all

lemma UpdateValidatorSet_Inr:
  assumes "getFullValidatorSet env st = Inr fullValidatorSet"
    and "snd (UpdateValidatorSet s env order st epoch old) = Inr delta"
  shows "\<exists>nextSet.
           getActiveValidators (newValidatorStakeMap fullValidatorSet) order (maxValidatorSetSize s) =
             Inr nextSet \<and>
           find (lookup_fails env (newValidatorStakeMap old)) nextSet = None \<and>
           delta = expected_delta env old nextSet \<and>
           fst (UpdateValidatorSet s env order st epoch old) = map Address (keyless_newcomers old nextSet)"
proof (cases "getActiveValidators (newValidatorStakeMap fullValidatorSet) order (maxValidatorSetSize s)")
  case (Inl err)
  then show ?thesis using assms by (simp add: UpdateValidatorSet_def)
next
  case (Inr nextSet)
  note eq = UpdateValidatorSet_eq [OF assms(1) Inr, of epoch old]
  show ?thesis
  proof (cases "find (lookup_fails env (newValidatorStakeMap old)) nextSet")
    case (Some nv)
    then show ?thesis using eq assms(2) by simp
  next
    case None
    then have "delta = expected_delta env old nextSet"
      using eq assms(2) by (simp split: if_splits sum.splits)
    moreover have "fst (UpdateValidatorSet s env order st epoch old) =
        map Address (keyless_newcomers old nextSet)"
      using eq None by (simp add: filter_needs_lookup)
    ultimately show ?thesis using Inr None by simp
  qed
qed

text \<open>
  C1. Let the load of the stored full set succeed, let the current committee have
  unique addresses, and let \<^verbatim>\<open>UpdateValidatorSet\<close> return a delta. Then
  \<^verbatim>\<open>getActiveValidators\<close> returned a next committee, and
  \<^item> bit \<open>i\<close> of \<open>Removed\<close> is set exactly when \<open>i\<close> is a position of the current
    committee whose address is not an address of the next committee;
  \<^item> \<open>Updated\<close> is the list of the validators of the next committee that are in the
    current committee with another voting power, in the order of the next committee;
  \<^item> \<open>Added\<close> lists the validators of the next committee that are absent from the
    current committee, in the order of the next committee: each entry has the address
    and voting power of its validator and a BLS key, and is the very record of the
    next committee when that record has a key;
  \<^item> a validator of the next committee that is in the current committee with the same
    voting power has its address in neither \<open>Added\<close> nor \<open>Updated\<close>, and the bit of its
    position is not set.
\<close>

theorem UpdateValidatorSet_delta:
  assumes full: "getFullValidatorSet env st = Inr fullValidatorSet"
    and ord: "iteration_order (newValidatorStakeMap fullValidatorSet) order"
    and dist: "distinct (map Address currentCommittee)"
    and res: "snd (UpdateValidatorSet s env order st epoch currentCommittee) = Inr delta"
  shows "\<exists>nextCommittee.
      getActiveValidators (newValidatorStakeMap fullValidatorSet) order (maxValidatorSetSize s) =
        Inr nextCommittee \<and>
      (\<forall>i. Bitmap_IsSet (Removed delta) i =
         (i < length currentCommittee \<and>
          Address (currentCommittee ! i) \<notin> Address ` set nextCommittee)) \<and>
      Updated delta =
        filter (\<lambda>nv. \<exists>ov\<in>set currentCommittee.
                  Address ov = Address nv \<and> VotingPower ov \<noteq> VotingPower nv) nextCommittee \<and>
      list_all2 (\<lambda>a nv. Address a = Address nv \<and> VotingPower a = VotingPower nv \<and>
                   BlsKey a \<noteq> None \<and> (BlsKey nv \<noteq> None \<longrightarrow> a = nv))
        (Added delta)
        (filter (\<lambda>nv. Address nv \<notin> Address ` set currentCommittee) nextCommittee) \<and>
      (\<forall>nv\<in>set nextCommittee. \<forall>i<length currentCommittee.
         Address (currentCommittee ! i) = Address nv \<and>
         VotingPower (currentCommittee ! i) = VotingPower nv \<longrightarrow>
         Address nv \<notin> Address ` set (Added delta) \<and>
         Address nv \<notin> Address ` set (Updated delta) \<and>
         \<not> Bitmap_IsSet (Removed delta) i)"
proof -
  obtain nextCommittee where
    nextC: "getActiveValidators (newValidatorStakeMap fullValidatorSet) order (maxValidatorSetSize s) =
        Inr nextCommittee"
    and nofail: "find (lookup_fails env (newValidatorStakeMap currentCommittee)) nextCommittee = None"
    and delta: "delta = expected_delta env currentCommittee nextCommittee"
    using UpdateValidatorSet_Inr [OF full res] by blast
  let ?absent = "\<lambda>nv. Address nv \<notin> Address ` set currentCommittee"
  have ok: "\<not> lookup_fails env (newValidatorStakeMap currentCommittee) nv"
    if "nv \<in> set nextCommittee" for nv
    using nofail that by (simp add: find_None_iff)
  have dnext: "distinct (map Address nextCommittee)"
    using getActiveValidators_distinct [OF keyed_by_address_newValidatorStakeMap ord nextC] .
  have removed: "\<forall>i. Bitmap_IsSet (Removed delta) i =
         (i < length currentCommittee \<and>
          Address (currentCommittee ! i) \<notin> Address ` set nextCommittee)"
    by (simp add: delta expected_delta_def Bitmap_IsSet_def)
  have updated: "Updated delta =
        filter (\<lambda>nv. \<exists>ov\<in>set currentCommittee.
                  Address ov = Address nv \<and> VotingPower ov \<noteq> VotingPower nv) nextCommittee"
    unfolding delta expected_delta_def
    by (simp add: power_changed_iff [OF dist] cong: filter_cong)
  have added_eq: "Added delta = map (resolve_added env) (filter ?absent nextCommittee)"
    by (simp add: delta expected_delta_def)
  have added: "list_all2 (\<lambda>a nv. Address a = Address nv \<and> VotingPower a = VotingPower nv \<and>
                   BlsKey a \<noteq> None \<and> (BlsKey nv \<noteq> None \<longrightarrow> a = nv))
        (Added delta) (filter ?absent nextCommittee)"
  proof -
    have "\<forall>x\<in>set (filter ?absent nextCommittee).
        Address (resolve_added env x) = Address x \<and>
        VotingPower (resolve_added env x) = VotingPower x \<and>
        BlsKey (resolve_added env x) \<noteq> None \<and>
        (BlsKey x \<noteq> None \<longrightarrow> resolve_added env x = x)"
    proof
      fix x assume "x \<in> set (filter ?absent nextCommittee)"
      then have x: "x \<in> set nextCommittee" "?absent x" by simp_all
      note p = resolve_added_props [OF ok [OF x(1)] x(2)]
      show "Address (resolve_added env x) = Address x \<and>
        VotingPower (resolve_added env x) = VotingPower x \<and>
        BlsKey (resolve_added env x) \<noteq> None \<and>
        (BlsKey x \<noteq> None \<longrightarrow> resolve_added env x = x)"
        using p by blast
    qed
    then show ?thesis unfolding added_eq list_all2_map1 list_all2_same .
  qed
  have unchanged: "\<forall>nv\<in>set nextCommittee. \<forall>i<length currentCommittee.
         Address (currentCommittee ! i) = Address nv \<and>
         VotingPower (currentCommittee ! i) = VotingPower nv \<longrightarrow>
         Address nv \<notin> Address ` set (Added delta) \<and>
         Address nv \<notin> Address ` set (Updated delta) \<and>
         \<not> Bitmap_IsSet (Removed delta) i"
  proof (intro ballI allI impI)
    fix nv i
    assume nv: "nv \<in> set nextCommittee" and i: "i < length currentCommittee"
      and same: "Address (currentCommittee ! i) = Address nv \<and>
         VotingPower (currentCommittee ! i) = VotingPower nv"
    have mem: "currentCommittee ! i \<in> set currentCommittee" using i by simp
    have inold: "Address nv \<in> Address ` set currentCommittee"
      using imageI [OF mem, of Address] same by simp
    have a: "Address nv \<notin> Address ` set (Added delta)"
    proof
      assume "Address nv \<in> Address ` set (Added delta)"
      then obtain x where x: "x \<in> set nextCommittee" "?absent x"
        "Address (resolve_added env x) = Address nv"
        unfolding added_eq by (auto simp: image_iff)
      then have "Address x = Address nv" using resolve_added_props(1) [OF ok [OF x(1)] x(2)] by simp
      then show False using x(2) inold by simp
    qed
    have u: "Address nv \<notin> Address ` set (Updated delta)"
    proof
      assume "Address nv \<in> Address ` set (Updated delta)"
      then obtain x where x0: "x \<in> set (Updated delta)" "Address nv = Address x"
        by (auto simp: image_iff)
      then have x: "x \<in> set nextCommittee" "Address x = Address nv"
        "\<exists>ov\<in>set currentCommittee. Address ov = Address x \<and> VotingPower ov \<noteq> VotingPower x"
        unfolding updated by simp_all
      have "x = nv" using same_Address_same_entry [OF dnext x(1) nv x(2)] .
      then obtain ov where ov: "ov \<in> set currentCommittee" "Address ov = Address nv"
        "VotingPower ov \<noteq> VotingPower nv" using x(3) by auto
      have "ov = currentCommittee ! i"
        using same_Address_same_entry [OF dist ov(1) mem] ov(2) same by simp
      then show False using ov(3) same by simp
    qed
    have "Address (currentCommittee ! i) \<in> Address ` set nextCommittee"
      using imageI [OF nv, of Address] same by simp
    then have r: "\<not> Bitmap_IsSet (Removed delta) i"
      by (simp add: removed)
    from a u r show "Address nv \<notin> Address ` set (Added delta) \<and>
         Address nv \<notin> Address ` set (Updated delta) \<and>
         \<not> Bitmap_IsSet (Removed delta) i" by simp
  qed
  show ?thesis
    by (rule exI [of _ nextCommittee]) (intro conjI nextC removed updated added unchanged)
qed


text \<open>
  The store need not keep the order of the full set (\<^verbatim>\<open>PostBlock\<close> writes it in the
  order in which it ranged over the stake map): for stored sets with unique addresses
  that have the same entries, the result is the same.
\<close>

lemma newValidatorStakeMap_permuted:
  assumes "distinct (map Address full1)" "distinct (map Address full2)" "set full1 = set full2"
  shows "newValidatorStakeMap full1 = newValidatorStakeMap full2"
proof (rule ext)
  fix a
  show "newValidatorStakeMap full1 a = newValidatorStakeMap full2 a"
  proof (cases "newValidatorStakeMap full1 a")
    case None
    then have "a \<notin> Address ` set full2"
      using assms(3) by (simp add: newValidatorStakeMap_None_iff)
    then have "newValidatorStakeMap full2 a = None"
      by (simp add: newValidatorStakeMap_None_iff)
    then show ?thesis using None by simp
  next
    case (Some v)
    then have "v \<in> set full2 \<and> Address v = a"
      using newValidatorStakeMap_Some_iff [OF assms(1), of a v] assms(3) by simp
    then show ?thesis
      using Some newValidatorStakeMap_Some_iff [OF assms(2), of a v] by simp
  qed
qed

lemma UpdateValidatorSet_stored_order_irrelevant:
  assumes "getFullValidatorSet env st1 = Inr full1" "getFullValidatorSet env st2 = Inr full2"
    and "distinct (map Address full1)" "distinct (map Address full2)" "set full1 = set full2"
    and "iteration_order (newValidatorStakeMap full1) order1"
    and "iteration_order (newValidatorStakeMap full2) order2"
  shows "UpdateValidatorSet s env order1 st1 epoch oldValidatorSet =
         UpdateValidatorSet s env order2 st2 epoch oldValidatorSet"
proof -
  have m: "newValidatorStakeMap full1 = newValidatorStakeMap full2"
    using assms(3-5) by (rule newValidatorStakeMap_permuted)
  have "getActiveValidators (newValidatorStakeMap full1) order1 (maxValidatorSetSize s) =
        getActiveValidators (newValidatorStakeMap full2) order2 (maxValidatorSetSize s)"
    unfolding m using assms(6,7) keyed_by_address_newValidatorStakeMap [of full2]
    unfolding m by (rule getActiveValidators_order_irrelevant [rotated])
  then show ?thesis using assms(1,2) by (simp add: UpdateValidatorSet_def)
qed

text \<open>
  C3. The only map the computation ranges over is the stake map in
  \<^verbatim>\<open>getActiveValidators\<close>. Whatever two orders the run time picks for it, with the
  same store contents, the same current committee and the same collaborators,
  \<^verbatim>\<open>UpdateValidatorSet\<close> returns the same result: the same error, or the same \<open>Added\<close>
  and \<open>Updated\<close> lists in the same order and the same \<open>Removed\<close> bitmap.
\<close>

theorem UpdateValidatorSet_deterministic:
  assumes "\<And>fullValidatorSet. getFullValidatorSet env st = Inr fullValidatorSet \<Longrightarrow>
             iteration_order (newValidatorStakeMap fullValidatorSet) order1 \<and>
             iteration_order (newValidatorStakeMap fullValidatorSet) order2"
  shows "UpdateValidatorSet s env order1 st epoch oldValidatorSet =
         UpdateValidatorSet s env order2 st epoch oldValidatorSet"
proof (cases "getFullValidatorSet env st")
  case (Inl err)
  then show ?thesis by (simp add: UpdateValidatorSet_def)
next
  case (Inr fullValidatorSet)
  have "getActiveValidators (newValidatorStakeMap fullValidatorSet) order1 (maxValidatorSetSize s) =
        getActiveValidators (newValidatorStakeMap fullValidatorSet) order2 (maxValidatorSetSize s)"
    using assms [OF Inr] keyed_by_address_newValidatorStakeMap [of fullValidatorSet]
    by (simp add: getActiveValidators_order_irrelevant)
  then show ?thesis using Inr by (simp add: UpdateValidatorSet_def)
qed

section \<open>The example epoch\<close>

lemma example_env_sel [simp]:
  "getFullValidatorSet example_env (Some vs) = Inr vs"
  "getFullValidatorSet example_env None = Inl (Error ''no full validator set'')"
  "insertFullValidatorSet example_env vs st = Inr (Some vs)"
  "queryBlsKey example_env addr_C = Inr (PublicKey [5, 6, 7, 8])"
  "queryBlsKey example_env addr_A = Inl (Error ''call failed'')"
  "queryBlsKey example_env addr_B = Inl (Error ''call failed'')"
  "ApplyDelta example_env vs d = Inr vs"
  by (simp_all add: example_env_def)

lemma example_manager_sel [simp]:
  "validatorSetContract example_manager = addr_A"
  "maxValidatorSetSize example_manager = 2"
  "logger_IsDebug example_manager = False"
  by (simp_all add: example_manager_def)

lemma example_old_map:
  "newValidatorStakeMap example_committee =
     [addr_A \<mapsto> validator addr_A 90, addr_B \<mapsto> validator addr_B 50]"
  by (simp add: newValidatorStakeMap_def example_committee_def)

lemma example_removed:
  "{j. j < length example_committee \<and>
       Address (example_committee ! j) \<notin> Address ` set [validator addr_A 100, keyless addr_C 75]} = {1}"
  by (auto simp: example_committee_def less_Suc_eq numeral_2_eq_2)

lemma example_expected_delta:
  "expected_delta example_env example_committee [validator addr_A 100, keyless addr_C 75] =
     \<lparr>Added = [\<lparr>Address = addr_C, VotingPower = 75, BlsKey = Some (PublicKey [5, 6, 7, 8]),
                 IsActive = True\<rparr>],
      Updated = [validator addr_A 100],
      Removed = {1}\<rparr>"
proof -
  have img: "Address ` set example_committee = {addr_A, addr_B}"
    by (simp add: example_committee_def)
  show ?thesis
    unfolding expected_delta_def example_removed
    by (simp add: img example_old_map power_changed_def resolve_added_def getNewValidatorInfo_def)
qed

lemma example_UpdateValidatorSet:
  "UpdateValidatorSet example_manager example_env [addr_C, addr_A, addr_B]
     (Some example_full_set) 7 example_committee =
     ([addr_C],
      Inr \<lparr>Added = [\<lparr>Address = addr_C, VotingPower = 75, BlsKey = Some (PublicKey [5, 6, 7, 8]),
                      IsActive = True\<rparr>],
           Updated = [validator addr_A 100],
           Removed = {1}\<rparr>)"
proof -
  have full: "getFullValidatorSet example_env (Some example_full_set) = Inr example_full_set"
    by simp
  have nextC: "getActiveValidators (newValidatorStakeMap example_full_set) [addr_C, addr_A, addr_B]
      (maxValidatorSetSize example_manager) = Inr [validator addr_A 100, keyless addr_C 75]"
    by (simp add: example_getActiveValidators)
  show ?thesis
    unfolding UpdateValidatorSet_eq [OF full nextC] example_expected_delta
    by (simp add: lookup_fails_def needs_lookup_def example_old_map)
qed


lemma example_env_offline_sel [simp]:
  "getFullValidatorSet example_env_offline (Some vs) = Inr vs"
  "getFullValidatorSet example_env_offline None = Inl (Error ''no full validator set'')"
  "insertFullValidatorSet example_env_offline vs st = Inr (Some vs)"
  "queryBlsKey example_env_offline a = Inl (Error ''call failed'')"
  "ParseLog example_env_offline = ParseLog example_env"
  by (simp_all add: example_env_offline_def example_env_def)

lemma example_committee_distinct: "distinct (map Address example_committee)"
  by (simp add: example_committee_def)

lemma example_keyless_newcomers:
  "keyless_newcomers example_committee [validator addr_A 100, keyless addr_C 75] =
     [keyless addr_C 75]"
  by (simp add: keyless_newcomers_def example_committee_def)

lemma example_UpdateValidatorSet_offline:
  "UpdateValidatorSet example_manager example_env_offline [addr_C, addr_A, addr_B]
     (Some example_full_set) 7 example_committee =
     ([addr_C], Inl (Errorf ''could not retrieve validator data'' (Error ''call failed'')))"
proof -
  have full: "getFullValidatorSet example_env_offline (Some example_full_set) = Inr example_full_set"
    by simp
  have nextC: "getActiveValidators (newValidatorStakeMap example_full_set) [addr_C, addr_A, addr_B]
      (maxValidatorSetSize example_manager) = Inr [validator addr_A 100, keyless addr_C 75]"
    by (simp add: example_getActiveValidators)
  show ?thesis
    unfolding UpdateValidatorSet_eq [OF full nextC]
    by (simp add: lookup_fails_def needs_lookup_def example_old_map)
qed

section \<open>Registry lookups of the epoch computation\<close>

text \<open>
  C6. Let the load of the stored full set succeed and \<^verbatim>\<open>getActiveValidators\<close> return
  the next committee. The registry is asked only for validators of the next committee
  that are absent from the current committee and have no BLS key, in the order of the
  next committee and each at most once: the addresses asked for are an initial part of
  the addresses of these validators, and none is an address of the current committee.
  When the lookup fails for one of them, \<^verbatim>\<open>UpdateValidatorSet\<close> returns the error that
  wraps the cause of a failed lookup, which is the last lookup made, and no delta. When
  no lookup fails, each of them is asked for once.
\<close>

theorem UpdateValidatorSet_lookups:
  assumes full: "getFullValidatorSet env st = Inr fullValidatorSet"
    and ord: "iteration_order (newValidatorStakeMap fullValidatorSet) order"
    and nextC: "getActiveValidators (newValidatorStakeMap fullValidatorSet) order
                  (maxValidatorSetSize s) = Inr nextCommittee"
  shows "(\<exists>rest. map Address (keyless_newcomers currentCommittee nextCommittee) =
            fst (UpdateValidatorSet s env order st epoch currentCommittee) @ rest) \<and>
         distinct (fst (UpdateValidatorSet s env order st epoch currentCommittee)) \<and>
         ((\<exists>nv\<in>set (keyless_newcomers currentCommittee nextCommittee).
             isl (queryBlsKey env (Address nv))) \<longrightarrow>
          (\<exists>nv\<in>set (keyless_newcomers currentCommittee nextCommittee). \<exists>cause.
             queryBlsKey env (Address nv) = Inl cause \<and>
             snd (UpdateValidatorSet s env order st epoch currentCommittee) =
               Inl (Errorf ''could not retrieve validator data'' cause) \<and>
             last (fst (UpdateValidatorSet s env order st epoch currentCommittee)) = Address nv)) \<and>
         ((\<forall>nv\<in>set (keyless_newcomers currentCommittee nextCommittee).
             \<not> isl (queryBlsKey env (Address nv))) \<longrightarrow>
          fst (UpdateValidatorSet s env order st epoch currentCommittee) =
            map Address (keyless_newcomers currentCommittee nextCommittee)) \<and>
         set (fst (UpdateValidatorSet s env order st epoch currentCommittee)) \<inter>
           Address ` set currentCommittee = {}"
proof -
  let ?old = "newValidatorStakeMap currentCommittee"
  let ?K = "keyless_newcomers currentCommittee nextCommittee"
  let ?U = "UpdateValidatorSet s env order st epoch currentCommittee"
  note eq = UpdateValidatorSet_eq [OF full nextC, of epoch currentCommittee]
  have K: "?K = filter (needs_lookup ?old) nextCommittee"
    by (simp add: filter_needs_lookup)
  have dnext: "distinct (map Address nextCommittee)"
    using getActiveValidators_distinct [OF keyed_by_address_newValidatorStakeMap ord nextC] .
  have dK: "distinct (map Address ?K)"
    unfolding keyless_newcomers_def using dnext by (rule distinct_map_filter)
  have fails_iff: "(\<exists>nv\<in>set ?K. isl (queryBlsKey env (Address nv))) =
      (\<exists>nv\<in>set nextCommittee. lookup_fails env ?old nv)"
    unfolding K by (auto simp: lookup_fails_def)
  have Kout: "set (map Address ?K) \<inter> Address ` set currentCommittee = {}"
    by (auto simp: keyless_newcomers_def)
  show ?thesis
  proof (cases "find (lookup_fails env ?old) nextCommittee")
    case None
    then have nofail: "\<not> (\<exists>nv\<in>set ?K. isl (queryBlsKey env (Address nv)))"
      unfolding fails_iff by (simp add: find_None_iff)
    have f: "fst ?U = map Address ?K" using eq None by (simp add: filter_needs_lookup)
    show ?thesis using f nofail dK Kout by simp
  next
    case (Some nv)
    from find_Some_split [OF Some] obtain post where
      nv: "lookup_fails env ?old nv"
      and split: "nextCommittee =
        takeWhile (\<lambda>y. \<not> lookup_fails env ?old y) nextCommittee @ nv # post"
      by blast
    let ?pre = "takeWhile (\<lambda>y. \<not> lookup_fails env ?old y) nextCommittee"
    have needs: "needs_lookup ?old nv" and isl: "isl (queryBlsKey env (Address nv))"
      using nv by (simp_all add: lookup_fails_def)
    obtain cause where cause: "queryBlsKey env (Address nv) = Inl cause"
      using isl by (cases "queryBlsKey env (Address nv)") auto
    have f: "fst ?U = map Address (filter (needs_lookup ?old) ?pre) @ [Address nv]"
      and e: "snd ?U = Inl (Errorf ''could not retrieve validator data'' cause)"
      using eq Some cause by simp_all
    have "filter (needs_lookup ?old) nextCommittee =
        filter (needs_lookup ?old) (?pre @ nv # post)"
      using split by simp
    then have Ksplit: "?K = filter (needs_lookup ?old) ?pre @ nv # filter (needs_lookup ?old) post"
      using needs unfolding K by simp
    then have pre: "map Address ?K = fst ?U @ map Address (filter (needs_lookup ?old) post)"
      using f by simp
    have mem: "nv \<in> set ?K" using Ksplit by simp
    have d: "distinct (fst ?U)" using dK unfolding pre by simp
    have l: "last (fst ?U) = Address nv" using f by simp
    have 1: "\<exists>rest. map Address ?K = fst ?U @ rest" using pre by blast
    have 3: "\<exists>nv\<in>set ?K. \<exists>cause. queryBlsKey env (Address nv) = Inl cause \<and>
        snd ?U = Inl (Errorf ''could not retrieve validator data'' cause) \<and>
        last (fst ?U) = Address nv"
      using mem cause e l by blast
    have 4: "\<not> (\<forall>nv\<in>set ?K. \<not> isl (queryBlsKey env (Address nv)))"
      using mem isl by blast
    have 5: "set (fst ?U) \<inter> Address ` set currentCommittee = {}"
      using Kout unfolding pre by auto
    show ?thesis using 1 d 3 4 5 by blast
  qed
qed


theorem UpdateValidatorSet_lookups_witness:
  "getFullValidatorSet example_env (Some example_full_set) = Inr example_full_set \<and>
   getFullValidatorSet example_env_offline (Some example_full_set) = Inr example_full_set \<and>
   iteration_order (newValidatorStakeMap example_full_set) [addr_C, addr_A, addr_B] \<and>
   getActiveValidators (newValidatorStakeMap example_full_set) [addr_C, addr_A, addr_B]
     (maxValidatorSetSize example_manager) = Inr [validator addr_A 100, keyless addr_C 75] \<and>
   fst (UpdateValidatorSet example_manager example_env [addr_C, addr_A, addr_B]
          (Some example_full_set) 7 example_committee) = [addr_C] \<and>
   snd (UpdateValidatorSet example_manager example_env_offline [addr_C, addr_A, addr_B]
          (Some example_full_set) 7 example_committee) =
     Inl (Errorf ''could not retrieve validator data'' (Error ''call failed''))"
proof -
  have full: "getFullValidatorSet example_env (Some example_full_set) = Inr example_full_set"
    and full': "getFullValidatorSet example_env_offline (Some example_full_set) = Inr example_full_set"
    by simp_all
  have ord: "iteration_order (newValidatorStakeMap example_full_set) [addr_C, addr_A, addr_B]"
    by (rule example_iteration_order)
  have nextC: "getActiveValidators (newValidatorStakeMap example_full_set) [addr_C, addr_A, addr_B]
     (maxValidatorSetSize example_manager) = Inr [validator addr_A 100, keyless addr_C 75]"
    by (simp add: example_getActiveValidators)
  have ok: "fst (UpdateValidatorSet example_manager example_env [addr_C, addr_A, addr_B]
          (Some example_full_set) 7 example_committee) = [addr_C]"
    using UpdateValidatorSet_lookups [OF full ord nextC, where epoch = 7 and currentCommittee = example_committee]
    by (simp add: example_keyless_newcomers)
  have bad: "snd (UpdateValidatorSet example_manager example_env_offline [addr_C, addr_A, addr_B]
          (Some example_full_set) 7 example_committee) =
     Inl (Errorf ''could not retrieve validator data'' (Error ''call failed''))"
    using UpdateValidatorSet_lookups [OF full' ord nextC, where epoch = 7 and currentCommittee = example_committee]
    by (simp add: example_keyless_newcomers)
  show ?thesis by (intro conjI full full' ord nextC ok bad)
qed


section \<open>The example epoch checked against the theorems\<close>

theorem UpdateValidatorSet_delta_witness:
  "getFullValidatorSet example_env (Some example_full_set) = Inr example_full_set \<and>
   iteration_order (newValidatorStakeMap example_full_set) [addr_C, addr_A, addr_B] \<and>
   distinct (map Address example_committee) \<and>
   snd (UpdateValidatorSet example_manager example_env [addr_C, addr_A, addr_B]
          (Some example_full_set) 7 example_committee) = Inr example_delta \<and>
   getActiveValidators (newValidatorStakeMap example_full_set) [addr_C, addr_A, addr_B]
     (maxValidatorSetSize example_manager) = Inr [validator addr_A 100, keyless addr_C 75] \<and>
   Bitmap_IsSet (Removed example_delta) 1 \<and> \<not> Bitmap_IsSet (Removed example_delta) 0 \<and>
   Updated example_delta = [validator addr_A 100] \<and>
   map stake_of (Added example_delta) = [(addr_C, 75)]"
proof -
  have full: "getFullValidatorSet example_env (Some example_full_set) = Inr example_full_set"
    by simp
  have ord: "iteration_order (newValidatorStakeMap example_full_set) [addr_C, addr_A, addr_B]"
    by (rule example_iteration_order)
  have res: "snd (UpdateValidatorSet example_manager example_env [addr_C, addr_A, addr_B]
          (Some example_full_set) 7 example_committee) = Inr example_delta"
    by (simp add: example_UpdateValidatorSet example_delta_def)
  have nextC: "getActiveValidators (newValidatorStakeMap example_full_set) [addr_C, addr_A, addr_B]
     (maxValidatorSetSize example_manager) = Inr [validator addr_A 100, keyless addr_C 75]"
    by (simp add: example_getActiveValidators)
  from UpdateValidatorSet_delta [OF full ord example_committee_distinct res]
  obtain nextCommittee where
    n: "getActiveValidators (newValidatorStakeMap example_full_set) [addr_C, addr_A, addr_B]
          (maxValidatorSetSize example_manager) = Inr nextCommittee"
    and r: "\<forall>i. Bitmap_IsSet (Removed example_delta) i =
         (i < length example_committee \<and>
          Address (example_committee ! i) \<notin> Address ` set nextCommittee)"
    and u: "Updated example_delta =
        filter (\<lambda>nv. \<exists>ov\<in>set example_committee.
                  Address ov = Address nv \<and> VotingPower ov \<noteq> VotingPower nv) nextCommittee"
    and a: "list_all2 (\<lambda>a nv. Address a = Address nv \<and> VotingPower a = VotingPower nv \<and>
                   BlsKey a \<noteq> None \<and> (BlsKey nv \<noteq> None \<longrightarrow> a = nv))
        (Added example_delta)
        (filter (\<lambda>nv. Address nv \<notin> Address ` set example_committee) nextCommittee)"
    by blast
  have nc: "nextCommittee = [validator addr_A 100, keyless addr_C 75]"
    using n nextC by simp
  have r1: "Bitmap_IsSet (Removed example_delta) 1" and r0: "\<not> Bitmap_IsSet (Removed example_delta) 0"
    using r unfolding nc by (simp_all add: example_committee_def)
  have u1: "Updated example_delta = [validator addr_A 100]"
    using u unfolding nc by (simp add: example_committee_def)
  have a1: "map stake_of (Added example_delta) = [(addr_C, 75)]"
    using a unfolding nc
    by (auto simp: example_committee_def list_all2_Cons2 stake_of_def)
  show ?thesis
    by (intro conjI full ord example_committee_distinct res nextC r1 r0 u1 a1)
qed

theorem UpdateValidatorSet_deterministic_witness:
  "iteration_order (newValidatorStakeMap example_full_set) [addr_C, addr_A, addr_B] \<and>
   iteration_order (newValidatorStakeMap example_full_set) [addr_B, addr_C, addr_A] \<and>
   UpdateValidatorSet example_manager example_env [addr_C, addr_A, addr_B]
     (Some example_full_set) 7 example_committee =
   UpdateValidatorSet example_manager example_env [addr_B, addr_C, addr_A]
     (Some example_full_set) 7 example_committee \<and>
   UpdateValidatorSet example_manager example_env [addr_B, addr_C, addr_A]
     (Some example_full_set) 7 example_committee = ([addr_C], Inr example_delta)"
proof -
  have d: "UpdateValidatorSet example_manager example_env [addr_C, addr_A, addr_B]
       (Some example_full_set) 7 example_committee =
     UpdateValidatorSet example_manager example_env [addr_B, addr_C, addr_A]
       (Some example_full_set) 7 example_committee"
    by (rule UpdateValidatorSet_deterministic) (simp add: example_iteration_order)
  then have e: "UpdateValidatorSet example_manager example_env [addr_B, addr_C, addr_A]
     (Some example_full_set) 7 example_committee = ([addr_C], Inr example_delta)"
    by (simp add: example_UpdateValidatorSet example_delta_def)
  show ?thesis by (intro conjI example_iteration_order d e)
qed

section \<open>Applying a delta\<close>

lemma Address_notin_imageD:
  "a \<notin> Address ` set xs \<Longrightarrow> x \<in> set xs \<Longrightarrow> Address x \<noteq> a"
  by auto

lemma Address_in_imageI:
  "x \<in> set xs \<Longrightarrow> Address x = a \<Longrightarrow> a \<in> Address ` set xs"
  by auto

lemma remove_marked_filter:
  "remove_marked {j. j < length xs \<and> P (xs ! j)} xs = filter (\<lambda>v. \<not> P v) xs"
proof -
  have 1: "filter (\<lambda>(i, v). \<not> Bitmap_IsSet {j. j < length xs \<and> P (xs ! j)} i) (enumerate 0 xs) =
      filter ((\<lambda>v. \<not> P v) \<circ> snd) (enumerate 0 xs)"
  proof (rule filter_cong [OF refl])
    fix p assume "p \<in> set (enumerate 0 xs)"
    then have "fst p < length xs \<and> snd p = xs ! fst p"
      by (simp add: in_set_enumerate_eq)
    then show "(case p of (i, v) \<Rightarrow> \<not> Bitmap_IsSet {j. j < length xs \<and> P (xs ! j)} i) =
        ((\<lambda>v. \<not> P v) \<circ> snd) p"
      by (simp add: Bitmap_IsSet_def case_prod_unfold)
  qed
  have 2: "map snd (filter ((\<lambda>v. \<not> P v) \<circ> snd) (enumerate 0 xs)) =
      filter (\<lambda>v. \<not> P v) (map snd (enumerate 0 xs))"
    by (rule filter_map [symmetric])
  show ?thesis unfolding remove_marked_def 1 2 by simp
qed

lemma find_Address_self:
  "find (\<lambda>u. Address u = Address v) updated = Some u \<Longrightarrow> Address u = Address v"
  by (induction updated) (simp_all split: if_splits)

lemma Address_overwritten [simp]: "Address (overwritten updated v) = Address v"
proof (cases "find (\<lambda>u. Address u = Address v) updated")
  case None
  then show ?thesis by (simp add: overwritten_def)
next
  case (Some u)
  then show ?thesis using find_Address_self [OF Some] by (simp add: overwritten_def)
qed

lemma overwritten_Cons:
  assumes "Address u \<notin> Address ` set updated"
  shows "overwritten (u # updated) v = overwritten updated (if Address v = Address u then u else v)"
proof (cases "Address v = Address u")
  case True
  have "\<forall>w\<in>set updated. Address w \<noteq> Address u"
    using Address_notin_imageD [OF assms] by blast
  then have "find (\<lambda>w. Address w = Address u) updated = None"
    by (simp add: find_None_iff)
  then show ?thesis using True by (simp add: overwritten_def)
next
  case False
  then have "Address u \<noteq> Address v" by simp
  then show ?thesis using False by (simp add: overwritten_def)
qed

lemma overwrite_by_address_map:
  "distinct (map Address updated) \<Longrightarrow>
   overwrite_by_address updated vs = map (overwritten updated) vs"
proof (induction updated arbitrary: vs)
  case Nil
  show ?case by (simp add: overwrite_by_address_def overwritten_def)
next
  case (Cons u updated)
  have notin: "Address u \<notin> Address ` set updated" and d: "distinct (map Address updated)"
    using Cons.prems by simp_all
  have "overwrite_by_address (u # updated) vs =
      overwrite_by_address updated (map (\<lambda>v. if Address v = Address u then u else v) vs)"
    by (simp add: overwrite_by_address_def)
  also have "\<dots> = map (overwritten updated) (map (\<lambda>v. if Address v = Address u then u else v) vs)"
    using Cons.IH [OF d] by simp
  also have "\<dots> = map (overwritten (u # updated)) vs"
    unfolding map_map comp_def overwritten_Cons [OF notin] ..
  finally show ?case .
qed


lemma find_in_set: "find P xs = Some x \<Longrightarrow> x \<in> set xs \<and> P x"
  by (induction xs) (simp_all split: if_splits)

lemma overwritten_cases:
  assumes d: "distinct (map Address nextSet)" and sub: "set updated \<subseteq> set nextSet"
    and nv: "nv \<in> set nextSet" and a: "Address v = Address nv"
  shows "overwritten updated v = (if nv \<in> set updated then nv else v)"
proof (cases "find (\<lambda>u. Address u = Address v) updated")
  case None
  then have "\<forall>u\<in>set updated. Address u \<noteq> Address v" by (simp add: find_None_iff)
  then have "nv \<notin> set updated" using a by auto
  then show ?thesis using None by (simp add: overwritten_def)
next
  case (Some u)
  from find_in_set [OF Some] have u: "u \<in> set updated" "Address u = Address v" by simp_all
  have "u \<in> set nextSet" using u(1) sub by blast
  then have "u = nv" using same_Address_same_entry [OF d _ nv] u(2) a by simp
  then show ?thesis using Some u(1) by (simp add: overwritten_def)
qed

lemma spec_apply_delta_expected:
  assumes dold: "distinct (map Address old)" and dnext: "distinct (map Address nextSet)"
    and ok: "\<And>nv. nv \<in> set nextSet \<Longrightarrow> \<not> lookup_fails env (newValidatorStakeMap old) nv"
  shows "mset (map stake_of (spec_apply_delta old (expected_delta env old nextSet))) =
           mset (map stake_of nextSet)"
    and "distinct (map Address (spec_apply_delta old (expected_delta env old nextSet)))"
proof -
  let ?oldMap = "newValidatorStakeMap old"
  let ?absent = "\<lambda>nv. Address nv \<notin> Address ` set old"
  let ?kept = "filter (\<lambda>v. Address v \<in> Address ` set nextSet) old"
  let ?added = "map (resolve_added env) (filter ?absent nextSet)"
  let ?upd = "filter (power_changed ?oldMap) nextSet"
  let ?applied = "spec_apply_delta old (expected_delta env old nextSet)"
  have dupd: "distinct (map Address ?upd)" using dnext by (rule distinct_map_filter)
  have sub: "set ?upd \<subseteq> set nextSet" by simp
  have kept: "remove_marked {j. j < length old \<and> Address (old ! j) \<notin> Address ` set nextSet} old = ?kept"
    using remove_marked_filter [of old "\<lambda>v. Address v \<notin> Address ` set nextSet"] by simp
  have applied: "?applied = map (overwritten ?upd) (?kept @ ?added)"
    unfolding spec_apply_delta_def expected_delta_def
    by (simp only: ValidatorSetDelta.simps kept overwrite_by_address_map [OF dupd])
  have addr_added: "map Address ?added = map Address (filter ?absent nextSet)"
    unfolding map_map comp_def
    by (rule map_cong [OF refl]) (simp add: resolve_added_props(1) [OF ok])
  have addr_applied: "map Address ?applied =
      map Address ?kept @ map Address (filter ?absent nextSet)"
    unfolding applied using addr_added by (simp add: comp_def)
  have d1: "distinct (map Address ?kept)" using dold by (rule distinct_map_filter)
  have d2: "distinct (map Address (filter ?absent nextSet))" using dnext by (rule distinct_map_filter)
  have in_old: "a \<in> Address ` set old" if "a \<in> set (map Address ?kept)" for a
    using that by auto
  have not_in_old: "a \<notin> Address ` set old" if "a \<in> set (map Address (filter ?absent nextSet))" for a
    using that by auto
  have disj: "set (map Address ?kept) \<inter> set (map Address (filter ?absent nextSet)) = {}"
    using in_old not_in_old by blast
  show dist: "distinct (map Address ?applied)"
    unfolding addr_applied using d1 d2 disj by simp
  have kept_stake: "\<exists>nv\<in>set nextSet. Address nv = Address v \<and>
      stake_of (overwritten ?upd v) = stake_of nv" if v: "v \<in> set ?kept" for v
  proof -
    have vold: "v \<in> set old" and "Address v \<in> Address ` set nextSet" using v by simp_all
    then obtain nv where nv: "nv \<in> set nextSet" "Address v = Address nv" by (auto simp: image_iff)
    have "?oldMap (Address nv) = Some v"
      using newValidatorStakeMap_Some_iff [OF dold, of "Address nv" v] vold nv(2) by simp
    then have pc: "power_changed ?oldMap nv = (VotingPower v \<noteq> VotingPower nv)"
      by (simp add: power_changed_def)
    have "overwritten ?upd v = (if nv \<in> set ?upd then nv else v)"
      using overwritten_cases [OF dnext sub nv] .
    then have "stake_of (overwritten ?upd v) = stake_of nv"
      using pc nv by (simp add: stake_of_def)
    then show ?thesis using nv by auto
  qed
  have added_stake: "Address (resolve_added env nv) = Address nv \<and>
      stake_of (overwritten ?upd (resolve_added env nv)) = stake_of nv"
    if nv: "nv \<in> set nextSet" "?absent nv" for nv
  proof -
    note p = resolve_added_props [OF ok [OF nv(1)] nv(2)]
    have "?oldMap (Address nv) = None" using nv(2) by (simp add: newValidatorStakeMap_None_iff)
    then have npc: "\<not> power_changed ?oldMap nv" by (simp add: power_changed_def)
    have "overwritten ?upd (resolve_added env nv) =
        (if nv \<in> set ?upd then nv else resolve_added env nv)"
      using overwritten_cases [OF dnext sub nv(1) p(1)] .
    then show ?thesis using npc p(1,2) by (simp add: stake_of_def)
  qed
  have all_stake: "\<exists>nv\<in>set nextSet. Address nv = Address v \<and>
      stake_of (overwritten ?upd v) = stake_of nv" if v: "v \<in> set (?kept @ ?added)" for v
  proof (cases "v \<in> set ?kept")
    case True
    then show ?thesis by (rule kept_stake)
  next
    case False
    have "v \<in> set ?kept \<or> v \<in> set ?added" using v unfolding set_append by blast
    then have "v \<in> set ?added" using False by blast
    then obtain nv where nv: "nv \<in> set nextSet" "?absent nv" "v = resolve_added env nv"
      by auto
    then show ?thesis using added_stake [OF nv(1,2)] by auto
  qed
  have covered: "\<exists>v\<in>set (?kept @ ?added). Address v = Address nv" if nv: "nv \<in> set nextSet" for nv
  proof (cases "?absent nv")
    case True
    have "resolve_added env nv \<in> set ?added" using nv True by simp
    then show ?thesis using added_stake [OF nv True] by auto
  next
    case False
    then obtain ov where ov: "ov \<in> set old" "Address nv = Address ov" by (auto simp: image_iff)
    have "Address ov \<in> Address ` set nextSet" using Address_in_imageI [OF nv] ov(2) by simp
    then have "ov \<in> set ?kept" using ov(1) by simp
    then show ?thesis using ov(2) by auto
  qed
  have img: "set (map stake_of ?applied) =
      (\<lambda>v. stake_of (overwritten ?upd v)) ` set (?kept @ ?added)"
    unfolding applied map_map set_map comp_def ..
  have seteq: "set (map stake_of ?applied) = set (map stake_of nextSet)"
  proof (rule set_eqI)
    fix x
    show "(x \<in> set (map stake_of ?applied)) = (x \<in> set (map stake_of nextSet))"
    proof
      assume "x \<in> set (map stake_of ?applied)"
      then obtain v where v: "v \<in> set (?kept @ ?added)" "x = stake_of (overwritten ?upd v)"
        unfolding img by (rule imageE)
      from all_stake [OF v(1)] obtain nv where "nv \<in> set nextSet"
        "stake_of (overwritten ?upd v) = stake_of nv" by blast
      then show "x \<in> set (map stake_of nextSet)" using v(2) by simp
    next
      assume "x \<in> set (map stake_of nextSet)"
      then obtain nv where nv: "nv \<in> set nextSet" "x = stake_of nv" by auto
      from covered [OF nv(1)] obtain v where v: "v \<in> set (?kept @ ?added)" "Address v = Address nv"
        by blast
      from all_stake [OF v(1)] obtain nv' where nv': "nv' \<in> set nextSet" "Address nv' = Address v"
        "stake_of (overwritten ?upd v) = stake_of nv'" by blast
      have "nv' = nv" using same_Address_same_entry [OF dnext nv'(1) nv(1)] nv'(2) v(2) by simp
      then have "x = stake_of (overwritten ?upd v)" using nv(2) nv'(3) by simp
      then show "x \<in> set (map stake_of ?applied)" unfolding img using v(1) by (rule image_eqI)
    qed
  qed
  have fst_stake: "map fst (map stake_of xs) = map Address xs" for xs :: AccountSet
    by (simp add: stake_of_def comp_def)
  have ds1: "distinct (map stake_of ?applied)"
    using dist fst_stake [of ?applied] by (metis distinct_map)
  have ds2: "distinct (map stake_of nextSet)"
    using dnext fst_stake [of nextSet] by (metis distinct_map)
  show "mset (map stake_of ?applied) = mset (map stake_of nextSet)"
    using set_eq_iff_mset_eq_distinct [OF ds1 ds2] seteq by simp
qed


text \<open>
  C5 (as amended). Let the load of the stored full set succeed, let the current
  committee have unique addresses, and let \<^verbatim>\<open>UpdateValidatorSet\<close> return a delta.
  Applying the delta to the current committee by the rule of the specification yields
  a committee with unique addresses that has the same (address, voting power) pairs as
  the next committee of \<^verbatim>\<open>getActiveValidators\<close>, each once. It need not be the same
  list: the entries stand in the order of the current committee followed by \<open>Added\<close>,
  unchanged members keep the record of the current committee, and added members carry
  the key that the registry resolved.
\<close>

theorem spec_apply_delta_same_stakes:
  assumes full: "getFullValidatorSet env st = Inr fullValidatorSet"
    and ord: "iteration_order (newValidatorStakeMap fullValidatorSet) order"
    and dist: "distinct (map Address currentCommittee)"
    and res: "snd (UpdateValidatorSet s env order st epoch currentCommittee) = Inr delta"
  shows "\<exists>nextCommittee.
      getActiveValidators (newValidatorStakeMap fullValidatorSet) order (maxValidatorSetSize s) =
        Inr nextCommittee \<and>
      mset (map stake_of (spec_apply_delta currentCommittee delta)) =
        mset (map stake_of nextCommittee) \<and>
      distinct (map Address (spec_apply_delta currentCommittee delta))"
proof -
  obtain nextCommittee where
    nextC: "getActiveValidators (newValidatorStakeMap fullValidatorSet) order (maxValidatorSetSize s) =
        Inr nextCommittee"
    and nofail: "find (lookup_fails env (newValidatorStakeMap currentCommittee)) nextCommittee = None"
    and delta: "delta = expected_delta env currentCommittee nextCommittee"
    using UpdateValidatorSet_Inr [OF full res] by blast
  have ok: "\<not> lookup_fails env (newValidatorStakeMap currentCommittee) nv"
    if "nv \<in> set nextCommittee" for nv
    using nofail that by (simp add: find_None_iff)
  have dnext: "distinct (map Address nextCommittee)"
    using getActiveValidators_distinct [OF keyed_by_address_newValidatorStakeMap ord nextC] .
  note p = spec_apply_delta_expected [OF dist dnext ok]
  show ?thesis
    unfolding delta by (rule exI [of _ nextCommittee]) (intro conjI nextC p)
qed

lemma resolved_C_sel [simp]:
  "Address resolved_C = addr_C" "VotingPower resolved_C = 75"
  "BlsKey resolved_C = Some (PublicKey [5, 6, 7, 8])"
  by (simp_all add: resolved_C_def)

lemma example_delta_resolved:
  "example_delta = \<lparr>Added = [resolved_C], Updated = [validator addr_A 100], Removed = {1}\<rparr>"
  by (simp add: example_delta_def resolved_C_def)

lemma example_spec_apply_delta:
  "spec_apply_delta example_committee example_delta = [validator addr_A 100, resolved_C]"
  by (simp add: spec_apply_delta_def example_delta_resolved remove_marked_def Bitmap_IsSet_def
      overwrite_by_address_def example_committee_def)

lemma example_spec_apply_delta_3:
  "spec_apply_delta example_committee example_delta_3 =
     [validator addr_A 100, validator addr_B 50, resolved_C]"
  by (simp add: spec_apply_delta_def example_delta_3_def remove_marked_def Bitmap_IsSet_def
      overwrite_by_address_def example_committee_def)

lemma example_manager_3_sel [simp]:
  "maxValidatorSetSize example_manager_3 = 3" "logger_IsDebug example_manager_3 = False"
  by (simp_all add: example_manager_3_def)

lemma example_removed_3:
  "{j. j < length example_committee \<and>
       Address (example_committee ! j) \<notin>
         Address ` set [validator addr_A 100, keyless addr_C 75, validator addr_B 50]} = {}"
  by (auto simp: example_committee_def nth_Cons split: nat.splits)

lemma example_expected_delta_3:
  "expected_delta example_env example_committee
     [validator addr_A 100, keyless addr_C 75, validator addr_B 50] = example_delta_3"
proof -
  have img: "Address ` set example_committee = {addr_A, addr_B}"
    by (simp add: example_committee_def)
  show ?thesis
    unfolding expected_delta_def example_removed_3
    by (simp add: img example_old_map power_changed_def resolve_added_def getNewValidatorInfo_def
        example_delta_3_def resolved_C_def)
qed

lemma example_UpdateValidatorSet_3:
  "UpdateValidatorSet example_manager_3 example_env [addr_C, addr_A, addr_B]
     (Some example_full_set) 7 example_committee = ([addr_C], Inr example_delta_3)"
proof -
  have full: "getFullValidatorSet example_env (Some example_full_set) = Inr example_full_set"
    by simp
  have nextC: "getActiveValidators (newValidatorStakeMap example_full_set) [addr_C, addr_A, addr_B]
      (maxValidatorSetSize example_manager_3) =
      Inr [validator addr_A 100, keyless addr_C 75, validator addr_B 50]"
    by (simp add: example_getActiveValidators)
  show ?thesis
    unfolding UpdateValidatorSet_eq [OF full nextC] example_expected_delta_3
    by (simp add: lookup_fails_def needs_lookup_def example_old_map)
qed

text \<open>
  The claim as stated fails: with the committee [A: 90, B: 50], the stored set
  [A: 100, B: 50, C: 75] and a maximum size of 3, the next committee is [A, C, B],
  while applying the delta gives [A, B, C].
\<close>

theorem spec_apply_delta_not_next_committee:
  "getFullValidatorSet example_env (Some example_full_set) = Inr example_full_set \<and>
   iteration_order (newValidatorStakeMap example_full_set) [addr_C, addr_A, addr_B] \<and>
   distinct (map Address example_committee) \<and>
   snd (UpdateValidatorSet example_manager_3 example_env [addr_C, addr_A, addr_B]
          (Some example_full_set) 7 example_committee) = Inr example_delta_3 \<and>
   getActiveValidators (newValidatorStakeMap example_full_set) [addr_C, addr_A, addr_B]
     (maxValidatorSetSize example_manager_3) =
     Inr [validator addr_A 100, keyless addr_C 75, validator addr_B 50] \<and>
   spec_apply_delta example_committee example_delta_3 =
     [validator addr_A 100, validator addr_B 50, resolved_C] \<and>
   spec_apply_delta example_committee example_delta_3 \<noteq>
     [validator addr_A 100, keyless addr_C 75, validator addr_B 50] \<and>
   map stake_of (spec_apply_delta example_committee example_delta_3) \<noteq>
     map stake_of [validator addr_A 100, keyless addr_C 75, validator addr_B 50]"
proof -
  have full: "getFullValidatorSet example_env (Some example_full_set) = Inr example_full_set"
    by simp
  have res: "snd (UpdateValidatorSet example_manager_3 example_env [addr_C, addr_A, addr_B]
          (Some example_full_set) 7 example_committee) = Inr example_delta_3"
    by (simp add: example_UpdateValidatorSet_3)
  have nextC: "getActiveValidators (newValidatorStakeMap example_full_set) [addr_C, addr_A, addr_B]
      (maxValidatorSetSize example_manager_3) =
      Inr [validator addr_A 100, keyless addr_C 75, validator addr_B 50]"
    by (simp add: example_getActiveValidators)
  have ne: "spec_apply_delta example_committee example_delta_3 \<noteq>
     [validator addr_A 100, keyless addr_C 75, validator addr_B 50]"
    by (simp add: example_spec_apply_delta_3)
  have ne2: "map stake_of (spec_apply_delta example_committee example_delta_3) \<noteq>
     map stake_of [validator addr_A 100, keyless addr_C 75, validator addr_B 50]"
    by (simp add: example_spec_apply_delta_3 stake_of_def)
  show ?thesis
    by (intro conjI full example_iteration_order(1) example_committee_distinct res nextC
        example_spec_apply_delta_3 ne ne2)
qed

theorem spec_apply_delta_same_stakes_witness:
  "getFullValidatorSet example_env (Some example_full_set) = Inr example_full_set \<and>
   iteration_order (newValidatorStakeMap example_full_set) [addr_C, addr_A, addr_B] \<and>
   distinct (map Address example_committee) \<and>
   snd (UpdateValidatorSet example_manager example_env [addr_C, addr_A, addr_B]
          (Some example_full_set) 7 example_committee) = Inr example_delta \<and>
   spec_apply_delta example_committee example_delta = [validator addr_A 100, resolved_C] \<and>
   mset (map stake_of (spec_apply_delta example_committee example_delta)) =
     mset (map stake_of [validator addr_A 100, keyless addr_C 75]) \<and>
   distinct (map Address (spec_apply_delta example_committee example_delta))"
proof -
  have full: "getFullValidatorSet example_env (Some example_full_set) = Inr example_full_set"
    by simp
  have res: "snd (UpdateValidatorSet example_manager example_env [addr_C, addr_A, addr_B]
          (Some example_full_set) 7 example_committee) = Inr example_delta"
    by (simp add: example_UpdateValidatorSet example_delta_def)
  have nextC: "getActiveValidators (newValidatorStakeMap example_full_set) [addr_C, addr_A, addr_B]
     (maxValidatorSetSize example_manager) = Inr [validator addr_A 100, keyless addr_C 75]"
    by (simp add: example_getActiveValidators)
  from spec_apply_delta_same_stakes [OF full example_iteration_order(1) example_committee_distinct res]
  have m: "mset (map stake_of (spec_apply_delta example_committee example_delta)) =
        mset (map stake_of [validator addr_A 100, keyless addr_C 75])"
    and d: "distinct (map Address (spec_apply_delta example_committee example_delta))"
    using nextC by auto
  show ?thesis
    by (intro conjI full example_iteration_order(1) example_committee_distinct res
        example_spec_apply_delta m d)
qed

section \<open>Per-block ingestion\<close>

lemma applyEvents_keyed:
  "keyed_by_address stakeMap \<Longrightarrow> applyEvents events stakeMap = Inr stakeMap' \<Longrightarrow>
   keyed_by_address stakeMap'"
proof (induction events arbitrary: stakeMap)
  case Nil
  then show ?case by simp
next
  case (Cons event events)
  show ?case
  proof (cases "IsStake event")
    case True
    then show ?thesis
      using Cons.IH [OF keyed_by_address_addStake [OF Cons.prems(1)]] Cons.prems(2) by simp
  next
    case False
    show ?thesis
    proof (cases "IsUnstake event")
      case True
      then obtain m where m: "removeStake stakeMap (From event) (Value event) = Inr m"
        and rest: "applyEvents events m = Inr stakeMap'"
        using Cons.prems(2) False by (auto split: sum.splits)
      show ?thesis
        using Cons.IH [OF keyed_by_address_removeStake [OF Cons.prems(1) m] rest] .
    next
      case nu: False
      then show ?thesis using Cons.IH [OF Cons.prems(1)] Cons.prems(2) False by simp
    qed
  qed
qed

lemma applyEvents_fault_isPanic:
  "applyEvents events stakeMap = Inl err \<Longrightarrow> isPanic err"
proof (induction events arbitrary: stakeMap)
  case Nil
  then show ?case by simp
next
  case (Cons event events)
  show ?case
  proof (cases "IsStake event")
    case True
    then show ?thesis using Cons by simp
  next
    case False
    show ?thesis
    proof (cases "IsUnstake event")
      case True
      show ?thesis
      proof (cases "removeStake stakeMap (From event) (Value event)")
        case (Inl p)
        then have "err = p" using Cons.prems False True by simp
        moreover have "isPanic p" using Inl by (auto simp: removeStake_def split: option.splits)
        ultimately show ?thesis by simp
      next
        case (Inr m)
        then show ?thesis using Cons False True by simp
      qed
    next
      case nu: False
      then show ?thesis using Cons False by simp
    qed
  qed
qed

lemma resolveEntry_failed_lookup:
  "BlsKey data = None \<Longrightarrow> isl (queryBlsKey env addr) \<Longrightarrow>
   resolveEntry env (addr, data) = data\<lparr>IsActive := 0 < VotingPower data\<rparr>"
  by (cases "queryBlsKey env addr") (simp_all add: resolveEntry_def getNewValidatorInfo_def)

lemma resolveEntry_has_key:
  "BlsKey data \<noteq> None \<Longrightarrow> resolveEntry env (addr, data) = data\<lparr>IsActive := 0 < VotingPower data\<rparr>"
  by (auto simp: resolveEntry_def)

lemma resolveEntry_resolved:
  "BlsKey data = None \<Longrightarrow> queryBlsKey env addr = Inr pubKey \<Longrightarrow>
   resolveEntry env (addr, data) =
     \<lparr>Address = addr, VotingPower = VotingPower data, BlsKey = Some pubKey,
      IsActive = 0 < VotingPower data\<rparr>"
  by (simp add: resolveEntry_def getNewValidatorInfo_def)

lemma resolveEntry_IsActive:
  "IsActive (resolveEntry env (addr, data)) = (0 < VotingPower (resolveEntry env (addr, data)))"
  by (simp add: resolveEntry_def Let_def)

lemma resolveEntry_VotingPower:
  "VotingPower (resolveEntry env (addr, data)) = VotingPower data"
  by (simp add: resolveEntry_def Let_def getNewValidatorInfo_def split: sum.splits)

lemma resolveEntry_Address:
  "Address data = addr \<Longrightarrow> Address (resolveEntry env (addr, data)) = addr"
  by (simp add: resolveEntry_def Let_def getNewValidatorInfo_def split: sum.splits)

lemma newFullValidatorSet_eq:
  "set order \<subseteq> dom stakeMap \<Longrightarrow>
   newFullValidatorSet env stakeMap order =
     map (\<lambda>addr. resolveEntry env (addr, the (stakeMap addr))) order"
  by (simp add: newFullValidatorSet_def range_entries_dom comp_def)


text \<open>
  C7. Let the extraction return events, at least one, let the load of the full set
  succeed and the events apply without a fault, giving the stake map \<open>stakeMap\<close>, which
  the run time ranges over in \<open>order\<close>. Then the result of \<^verbatim>\<open>PostBlock\<close> is the result
  of writing the new full set to the store, whatever the registry answers. The new full
  set has one entry for each address of the stake map; an entry without a BLS key
  whose lookup fails is written as it is in the stake map, with no key and its
  voting power, and \<open>IsActive\<close> recomputed; every entry written has the voting power of
  its stake-map entry and \<open>IsActive\<close> true exactly when that voting power is positive.
  Moreover an error returned by \<^verbatim>\<open>PostBlock\<close> is the error of the extraction, of the
  load or of the write; the only other failure is the panic of \<^verbatim>\<open>removeStake\<close> on an
  address that is not in the stake map.
\<close>

theorem PostBlock_tolerates_failed_lookups:
  "(getTransferEventsFromReceipts s env (Receipts req) = Inr events \<and> events \<noteq> [] \<and>
    getFullValidatorSet env st = Inr fullValidatorSet \<and>
    applyEvents events (newValidatorStakeMap fullValidatorSet) = Inr stakeMap \<and>
    iteration_order stakeMap order \<longrightarrow>
      PostBlock s env order req st =
        insertFullValidatorSet env (newFullValidatorSet env stakeMap order) st \<and>
      map Address (newFullValidatorSet env stakeMap order) = order \<and>
      (\<forall>addr data. stakeMap addr = Some data \<and> BlsKey data = None \<and>
           isl (queryBlsKey env addr) \<longrightarrow>
         data\<lparr>IsActive := 0 < VotingPower data\<rparr> \<in> set (newFullValidatorSet env stakeMap order)) \<and>
      (\<forall>v\<in>set (newFullValidatorSet env stakeMap order).
         IsActive v = (0 < VotingPower v) \<and>
         (\<exists>data. stakeMap (Address v) = Some data \<and> VotingPower v = VotingPower data))) \<and>
   (PostBlock s env order req st = Inl err \<longrightarrow>
      getTransferEventsFromReceipts s env (Receipts req) = Inl err \<or>
      getFullValidatorSet env st = Inl err \<or>
      (\<exists>vs. insertFullValidatorSet env vs st = Inl err) \<or>
      (isPanic err \<and>
       (\<exists>evs full. getTransferEventsFromReceipts s env (Receipts req) = Inr evs \<and>
          getFullValidatorSet env st = Inr full \<and>
          applyEvents evs (newValidatorStakeMap full) = Inl err)))"
proof (intro conjI impI)
  assume a: "getTransferEventsFromReceipts s env (Receipts req) = Inr events \<and> events \<noteq> [] \<and>
    getFullValidatorSet env st = Inr fullValidatorSet \<and>
    applyEvents events (newValidatorStakeMap fullValidatorSet) = Inr stakeMap \<and>
    iteration_order stakeMap order"
  then have ev: "getTransferEventsFromReceipts s env (Receipts req) = Inr events"
    and ne: "events \<noteq> []"
    and full: "getFullValidatorSet env st = Inr fullValidatorSet"
    and app: "applyEvents events (newValidatorStakeMap fullValidatorSet) = Inr stakeMap"
    and ord: "iteration_order stakeMap order"
    by simp_all
  let ?new = "newFullValidatorSet env stakeMap order"
  have keyed: "keyed_by_address stakeMap"
    using applyEvents_keyed [OF keyed_by_address_newValidatorStakeMap app] .
  have sub: "set order \<subseteq> dom stakeMap" and dom: "set order = dom stakeMap"
    using ord by (simp_all add: iteration_order_def)
  note new = newFullValidatorSet_eq [OF sub, of env]
  show "PostBlock s env order req st = insertFullValidatorSet env ?new st"
    using ev ne full app by (simp add: PostBlock_def)
  have entry: "Address (resolveEntry env (addr, the (stakeMap addr))) = addr"
    if mem: "addr \<in> set order" for addr
  proof -
    obtain data where d: "stakeMap addr = Some data" using mem sub by blast
    then have "Address data = addr" using keyed by (simp add: keyed_by_address_def)
    then show ?thesis using d by (simp add: resolveEntry_Address)
  qed
  show "map Address ?new = order"
    unfolding new map_map comp_def using entry by (simp add: map_idI)
  show "\<forall>addr data. stakeMap addr = Some data \<and> BlsKey data = None \<and>
           isl (queryBlsKey env addr) \<longrightarrow>
         data\<lparr>IsActive := 0 < VotingPower data\<rparr> \<in> set ?new"
  proof (intro allI impI)
    fix addr data
    assume h: "stakeMap addr = Some data \<and> BlsKey data = None \<and> isl (queryBlsKey env addr)"
    then have "addr \<in> set order" using dom by auto
    then have "resolveEntry env (addr, the (stakeMap addr)) \<in> set ?new"
      unfolding new by simp
    then show "data\<lparr>IsActive := 0 < VotingPower data\<rparr> \<in> set ?new"
      using h by (simp add: resolveEntry_failed_lookup)
  qed
  show "\<forall>v\<in>set ?new. IsActive v = (0 < VotingPower v) \<and>
         (\<exists>data. stakeMap (Address v) = Some data \<and> VotingPower v = VotingPower data)"
  proof
    fix v assume "v \<in> set ?new"
    then obtain addr where a1: "addr \<in> set order"
      and a2: "v = resolveEntry env (addr, the (stakeMap addr))"
      unfolding new by auto
    obtain data where d: "stakeMap addr = Some data" using a1 sub by blast
    have "Address v = addr" using entry [OF a1] a2 by simp
    then show "IsActive v = (0 < VotingPower v) \<and>
         (\<exists>data. stakeMap (Address v) = Some data \<and> VotingPower v = VotingPower data)"
      using a2 d by (simp add: resolveEntry_IsActive resolveEntry_VotingPower)
  qed
next
  assume f: "PostBlock s env order req st = Inl err"
  show "getTransferEventsFromReceipts s env (Receipts req) = Inl err \<or>
      getFullValidatorSet env st = Inl err \<or>
      (\<exists>vs. insertFullValidatorSet env vs st = Inl err) \<or>
      (isPanic err \<and>
       (\<exists>evs full. getTransferEventsFromReceipts s env (Receipts req) = Inr evs \<and>
          getFullValidatorSet env st = Inr full \<and>
          applyEvents evs (newValidatorStakeMap full) = Inl err))"
  proof (cases "getTransferEventsFromReceipts s env (Receipts req)")
    case (Inl e)
    then show ?thesis using f by (simp add: PostBlock_def)
  next
    case evs: (Inr evs)
    then have ne: "evs \<noteq> []" using f by (auto simp: PostBlock_def)
    show ?thesis
    proof (cases "getFullValidatorSet env st")
      case (Inl e)
      then show ?thesis using f evs ne by (simp add: PostBlock_def)
    next
      case full: (Inr full)
      show ?thesis
      proof (cases "applyEvents evs (newValidatorStakeMap full)")
        case (Inl p)
        then have "err = p" using f evs ne full by (simp add: PostBlock_def)
        then show ?thesis using Inl evs full applyEvents_fault_isPanic [OF Inl] by simp
      next
        case (Inr m)
        then have "insertFullValidatorSet env (newFullValidatorSet env m order) st = Inl err"
          using f evs ne full by (simp add: PostBlock_def)
        then show ?thesis by blast
      qed
    qed
  qed
qed

lemma ZeroAddress_bytes:
  "ZeroAddress = [0, 0, 0, 0, 0, 0, 0, 0, 0, 0, 0, 0, 0, 0, 0, 0, 0, 0, 0, 0]"
  by (simp add: ZeroAddress_def eval_nat_numeral)

lemma ZeroAddress_neq [simp]:
  "addr_A \<noteq> ZeroAddress" "addr_B \<noteq> ZeroAddress" "addr_C \<noteq> ZeroAddress"
  by (simp_all add: ZeroAddress_bytes addr_A_def addr_B_def addr_C_def)

lemma example_expected_logs:
  "expected_logs addr_A example_receipts =
      [example_log addr_A [[], ZeroAddress, addr_B], example_log addr_A [],
       example_log addr_A [[], addr_C, ZeroAddress]]"
  by (simp add: expected_logs_def example_receipts_def example_log_def)

lemma example_ParseLog:
  "ParseLog example_env (example_log a [t, f, r]) = (\<lparr>From = f, To = r, Value = 3\<rparr>, True, None)"
  "ParseLog example_env (example_log a []) = (\<lparr>From = [], To = [], Value = 0\<rparr>, False, None)"
  by (simp_all add: example_env_def example_log_def)

lemma example_extraction:
  "ParseLog env = ParseLog example_env \<Longrightarrow>
   getTransferEventsFromReceipts example_manager env example_receipts = Inr example_events"
  by (simp add: getTransferEventsFromReceipts_def receiptsLoop_find example_expected_logs
      example_ParseLog example_events_def)

lemma example_applyEvents:
  "applyEvents example_events (newValidatorStakeMap example_full_set) =
     Inr [addr_A \<mapsto> validator addr_A 100, addr_B \<mapsto> validator addr_B 53,
          addr_C \<mapsto> keyless addr_C 72]"
  by (simp add: example_events_def example_stake_map IsStake_def IsUnstake_def addStake_def
      removeStake_def validator_def keyless_def)

lemma example_newFullValidatorSet:
  "newFullValidatorSet example_env_offline
     [addr_A \<mapsto> validator addr_A 100, addr_B \<mapsto> validator addr_B 53,
      addr_C \<mapsto> keyless addr_C 72] [addr_C, addr_A, addr_B] =
     [keyless addr_C 72, validator addr_A 100, validator addr_B 53]"
  by (simp add: newFullValidatorSet_def range_entries_def List.map_filter_simps
      resolveEntry_failed_lookup resolveEntry_has_key validator_def keyless_def)

theorem PostBlock_tolerates_failed_lookups_witness:
  "getTransferEventsFromReceipts example_manager example_env_offline example_receipts =
     Inr example_events \<and>
   example_events \<noteq> [] \<and>
   getFullValidatorSet example_env_offline (Some example_full_set) = Inr example_full_set \<and>
   applyEvents example_events (newValidatorStakeMap example_full_set) =
     Inr [addr_A \<mapsto> validator addr_A 100, addr_B \<mapsto> validator addr_B 53,
          addr_C \<mapsto> keyless addr_C 72] \<and>
   iteration_order [addr_A \<mapsto> validator addr_A 100, addr_B \<mapsto> validator addr_B 53,
                    addr_C \<mapsto> keyless addr_C 72] [addr_C, addr_A, addr_B] \<and>
   isl (queryBlsKey example_env_offline addr_C) \<and>
   PostBlock example_manager example_env_offline [addr_C, addr_A, addr_B]
     \<lparr>Receipts = example_receipts, Epoch = 7\<rparr> (Some example_full_set) =
     Inr (Some [keyless addr_C 72, validator addr_A 100, validator addr_B 53]) \<and>
   PostBlock example_manager example_env_offline [addr_C, addr_A, addr_B]
     \<lparr>Receipts = example_receipts, Epoch = 7\<rparr> None =
     Inl (Error ''no full validator set'') \<and>
   getFullValidatorSet example_env_offline None = Inl (Error ''no full validator set'')"
proof -
  have ev: "getTransferEventsFromReceipts example_manager example_env_offline example_receipts =
     Inr example_events"
    by (rule example_extraction) simp
  have ne: "example_events \<noteq> []" by (simp add: example_events_def)
  have full: "getFullValidatorSet example_env_offline (Some example_full_set) = Inr example_full_set"
    by simp
  have ord: "iteration_order [addr_A \<mapsto> validator addr_A 100, addr_B \<mapsto> validator addr_B 53,
                    addr_C \<mapsto> keyless addr_C 72] [addr_C, addr_A, addr_B]"
    by (auto simp: iteration_order_def)
  have q: "isl (queryBlsKey example_env_offline addr_C)" by simp
  have "PostBlock example_manager example_env_offline [addr_C, addr_A, addr_B]
     \<lparr>Receipts = example_receipts, Epoch = 7\<rparr> (Some example_full_set) =
     Inr (Some [keyless addr_C 72, validator addr_A 100, validator addr_B 53])"
    using PostBlock_tolerates_failed_lookups [of example_manager example_env_offline
        "\<lparr>Receipts = example_receipts, Epoch = 7\<rparr>" example_events "Some example_full_set"
        example_full_set
        "[addr_A \<mapsto> validator addr_A 100, addr_B \<mapsto> validator addr_B 53,
          addr_C \<mapsto> keyless addr_C 72]" "[addr_C, addr_A, addr_B]"]
      ev ne full example_applyEvents ord
    by (simp add: example_newFullValidatorSet)
  moreover have fail: "PostBlock example_manager example_env_offline [addr_C, addr_A, addr_B]
     \<lparr>Receipts = example_receipts, Epoch = 7\<rparr> None =
     Inl (Error ''no full validator set'')"
    using ev ne by (simp add: PostBlock_def)
  moreover have "getFullValidatorSet example_env_offline None = Inl (Error ''no full validator set'')"
    using PostBlock_tolerates_failed_lookups [THEN conjunct2, rule_format, OF fail] ev
    by simp
  ultimately show ?thesis
    by (intro conjI ev ne full example_applyEvents ord q)
qed

end
